theory Spec2Isabelle
  imports Complex_Main "HOL-Library.Multiset"
begin

section \<open>JavaScript values\<close>

text \<open>
  A JavaScript \<open>number\<close>: a finite value, or one of the three special values. No
  arithmetic is done on prices by the operations modelled here, only the comparison
  \<open>price < 0\<close>, so finite numbers are kept as reals.
\<close>

datatype jsnum = Fin real | NaN | PosInf | NegInf

text \<open>The test \<open>x < 0\<close> on a number: false for \<open>NaN\<close> and for \<open>+Infinity\<close>.\<close>

fun lt_zero :: "jsnum \<Rightarrow> bool" where
  "lt_zero (Fin r) = (r < 0)"
| "lt_zero NegInf = True"
| "lt_zero NaN = False"
| "lt_zero PosInf = False"

text \<open>What \<open>JSON.parse\<close> returns and \<open>JSON.stringify\<close> prints.\<close>

datatype json =
    JNull
  | JBool bool
  | JNum real
  | JStr string
  | JArr "json list"
  | JObj "(string \<times> json) list"

text \<open>
  The value of a property of a gadget object. A \<open>Date\<close> holds its time value in
  milliseconds, \<open>None\<close> for an invalid date. Arrays and objects nested in a property come
  only from \<open>JSON.parse\<close>; the class never reads into them, so they are kept by value.
\<close>

datatype jsval =
    VUndefined
  | VNull
  | VBool bool
  | VNum jsnum
  | VStr string
  | VDate "int option"
  | VCompound json

type_synonym addr = nat

text \<open>An object is the list of its own properties, in insertion order.\<close>

type_synonym obj = "(string \<times> jsval) list"

text \<open>
  A property of a history entry: a plain value, or a reference to a gadget object on the
  heap (the property \<open>gadget\<close>).
\<close>

datatype slot = Ref addr | Val jsval

type_synonym entry = "(string \<times> slot) list"

datatype exn = Error string | TypeError | SyntaxError | CipherError

datatype 'a outcome = Return 'a | Throw exn

text \<open>Reading a property: \<open>undefined\<close> when the object has no such property.\<close>

definition get :: "obj \<Rightarrow> string \<Rightarrow> jsval" where
  "get ob k = (case map_of ob k of None \<Rightarrow> VUndefined | Some v \<Rightarrow> v)"

text \<open>
  Assigning a property: an existing property keeps its place, a new one goes last.
\<close>

primrec assign :: "string \<Rightarrow> 'v \<Rightarrow> (string \<times> 'v) list \<Rightarrow> (string \<times> 'v) list" where
  "assign k v [] = [(k, v)]"
| "assign k v (p # ps) = (if fst p = k then (k, v) # ps else p # assign k v ps)"

text \<open>
  Truthiness, for \<open>!name\<close>, \<open>!parsed\<close> and \<open>parsed.version || 1\<close>.
\<close>

fun truthy :: "jsval \<Rightarrow> bool" where
  "truthy VUndefined = False"
| "truthy VNull = False"
| "truthy (VBool b) = b"
| "truthy (VNum (Fin r)) = (r \<noteq> 0)"
| "truthy (VNum NaN) = False"
| "truthy (VNum PosInf) = True"
| "truthy (VNum NegInf) = True"
| "truthy (VStr s) = (s \<noteq> [])"
| "truthy (VDate t) = True"
| "truthy (VCompound j) = True"

section \<open>The insertion-ordered \<open>Map\<close>\<close>

text \<open>
  Keys are compared with SameValueZero: primitives by value (\<open>NaN\<close> equals itself),
  objects by identity. An object used as a key is always a fresh one here, so it is equal to
  no key already present.
\<close>

fun is_object :: "jsval \<Rightarrow> bool" where
  "is_object (VDate t) = True"
| "is_object (VCompound j) = True"
| "is_object v = False"

definition same_key :: "jsval \<Rightarrow> jsval \<Rightarrow> bool" where
  "same_key a b = (\<not> is_object a \<and> a = b)"

primrec map_get :: "jsval \<Rightarrow> (jsval \<times> 'a) list \<Rightarrow> 'a option" where
  "map_get k [] = None"
| "map_get k (p # ps) = (if same_key (fst p) k then Some (snd p) else map_get k ps)"

primrec map_set :: "jsval \<Rightarrow> 'a \<Rightarrow> (jsval \<times> 'a) list \<Rightarrow> (jsval \<times> 'a) list" where
  "map_set k v [] = [(k, v)]"
| "map_set k v (p # ps) =
     (if same_key (fst p) k then (fst p, v) # ps else p # map_set k v ps)"

definition map_delete :: "jsval \<Rightarrow> (jsval \<times> 'a) list \<Rightarrow> (jsval \<times> 'a) list" where
  "map_delete k ps = filter (\<lambda>p. \<not> same_key (fst p) k) ps"

definition map_values :: "(jsval \<times> 'a) list \<Rightarrow> 'a list" where
  "map_values ps = map snd ps"

section \<open>The tracker and its heap\<close>

text \<open>
  Gadget objects live on a heap, so that a reference stored in the map, a reference held
  by the caller and a snapshot in the history can be told apart. The fields of the class
  are \<open>gadgets\<close>, \<open>history\<close> and \<open>version\<close>.
\<close>

record state =
  heap :: "obj list"
  gadgets :: "(jsval \<times> addr) list"
  history :: "entry list"
  version :: jsval

text \<open>
  Every reference the program holds points into the heap; the second branch is never taken
  from a reference obtained by \<open>alloc\<close>.
\<close>

definition obj_at :: "obj list \<Rightarrow> addr \<Rightarrow> obj" where
  "obj_at h a = (if a < length h then h ! a else [])"

definition alloc :: "obj \<Rightarrow> obj list \<Rightarrow> addr \<times> obj list" where
  "alloc ob h = (length h, h @ [ob])"

text \<open>\<open>gadget.k = v\<close> on the object behind a reference.\<close>

definition write_prop :: "addr \<Rightarrow> string \<Rightarrow> jsval \<Rightarrow> state \<Rightarrow> state" where
  "write_prop a k v s = s\<lparr>heap := (heap s)[a := assign k v (obj_at (heap s) a)]\<rparr>"

text \<open>
  \<open>recordHistory(action, gadget)\<close>: pushes an entry whose \<open>gadget\<close> is the spread copy
  \<open>{ ...gadget }\<close>, a new object. \<open>now\<close> is the value of \<open>new Date()\<close>.
\<close>

definition recordHistory :: "string \<Rightarrow> addr \<Rightarrow> int \<Rightarrow> state \<Rightarrow> state" where
  "recordHistory action g now s =
     (let (c, h') = alloc (obj_at (heap s) g) (heap s)
      in s\<lparr>heap := h',
           history := history s @
             [[(''action'', Val (VStr action)),
               (''gadget'', Ref c),
               (''timestamp'', Val (VDate (Some now)))]]\<rparr>)"

text \<open>
  The constructor. \<open>h\<close> is the heap on which the caller's gadget objects live;
  \<open>initialGadgets\<close> is \<open>None\<close> when the argument is omitted.
\<close>

definition install :: "obj list \<Rightarrow> (jsval \<times> addr) list \<Rightarrow> addr \<Rightarrow> (jsval \<times> addr) list" where
  "install h m g = map_set (get (obj_at h g) ''id'') g m"

definition new_tracker :: "addr list option \<Rightarrow> obj list \<Rightarrow> state" where
  "new_tracker initialGadgets h =
     \<lparr>heap = h,
      gadgets = (case initialGadgets of
                   None \<Rightarrow> []
                 | Some gs \<Rightarrow> foldl (install h) [] gs),
      history = [],
      version = VNum (Fin 1)\<rparr>"

text \<open>
  \<open>addGadget(name, brand, price)\<close>. \<open>rnd\<close> is the hex string of the six random bytes of
  \<open>generateId\<close>, \<open>added\<close> and \<open>now\<close> are the two readings of the clock. The result is the
  reference to the stored object.
\<close>

definition generateId :: "string \<Rightarrow> string" where
  "generateId rnd = ''gadget-'' @ rnd"

definition addGadget ::
  "string \<Rightarrow> string \<Rightarrow> jsnum \<Rightarrow> string \<Rightarrow> int \<Rightarrow> int \<Rightarrow> state \<Rightarrow> addr outcome \<times> state" where
  "addGadget n b p rnd added now s =
     (if n = [] \<or> b = [] \<or> lt_zero p then (Throw (Error ''Invalid gadget data.''), s)
      else
        let ident = generateId rnd;
            (g, h') = alloc [(''id'', VStr ident), (''name'', VStr n), (''brand'', VStr b),
                             (''price'', VNum p), (''addedAt'', VDate (Some added))] (heap s);
            s1 = s\<lparr>heap := h', gadgets := map_set (VStr ident) g (gadgets s)\<rparr>
        in (Return g, recordHistory ''ADD'' g now s1))"

text \<open>
  The argument \<open>data\<close> of \<open>updateGadget\<close>: each field is \<open>None\<close> when it is
  \<open>undefined\<close>.
\<close>

record partial_gadget =
  name :: "string option"
  brand :: "string option"
  price :: "jsnum option"

text \<open>
  \<open>updateGadget(id, data)\<close>. The result is \<open>None\<close> for \<open>null\<close>. The object in the map is
  changed in place, field by field, in the order of the source; the exception for a negative
  price is raised after the assignments to \<open>name\<close> and \<open>brand\<close>. The argument of
  \<open>recordHistory\<close> is the spread copy \<open>{ ...gadget }\<close>.
\<close>

definition updateGadget ::
  "string \<Rightarrow> partial_gadget \<Rightarrow> int \<Rightarrow> state \<Rightarrow> addr option outcome \<times> state" where
  "updateGadget ident data now s =
     (case map_get (VStr ident) (gadgets s) of
        None \<Rightarrow> (Return None, s)
      | Some g \<Rightarrow>
          let s1 = (case name data of None \<Rightarrow> s | Some n \<Rightarrow> write_prop g ''name'' (VStr n) s);
              s2 = (case brand data of None \<Rightarrow> s1 | Some b \<Rightarrow> write_prop g ''brand'' (VStr b) s1)
          in if (case price data of None \<Rightarrow> False | Some p \<Rightarrow> lt_zero p)
             then (Throw (Error ''Price cannot be negative.''), s2)
             else
               let s3 = (case price data of None \<Rightarrow> s2
                         | Some p \<Rightarrow> write_prop g ''price'' (VNum p) s2);
                   (c, h') = alloc (obj_at (heap s3) g) (heap s3)
               in (Return (Some g), recordHistory ''UPDATE'' c now (s3\<lparr>heap := h'\<rparr>)))"

text \<open>\<open>deleteGadget(id)\<close>.\<close>

definition deleteGadget :: "string \<Rightarrow> int \<Rightarrow> state \<Rightarrow> bool \<times> state" where
  "deleteGadget ident now s =
     (case map_get (VStr ident) (gadgets s) of
        None \<Rightarrow> (False, s)
      | Some g \<Rightarrow>
          (True, recordHistory ''DELETE'' g now
                   (s\<lparr>gadgets := map_delete (VStr ident) (gadgets s)\<rparr>)))"

text \<open>
  \<open>Array.prototype.sort(compare)\<close>. The language fixes the result when the comparison is
  consistent: the sort is stable, so the result is the one stable arrangement, which
  insertion from the right computes. An element goes before the first one it does not
  compare greater than.
\<close>

primrec insort_cmp :: "('a \<Rightarrow> 'a \<Rightarrow> int) \<Rightarrow> 'a \<Rightarrow> 'a list \<Rightarrow> 'a list" where
  "insort_cmp c x [] = [x]"
| "insort_cmp c x (y # ys) = (if c x y \<le> 0 then x # y # ys else y # insort_cmp c x ys)"

definition array_sort :: "('a \<Rightarrow> 'a \<Rightarrow> int) \<Rightarrow> 'a list \<Rightarrow> 'a list" where
  "array_sort c xs = foldr (insort_cmp c) xs []"

text \<open>
  \<open>g.addedAt.getTime()\<close> on a \<open>Date\<close>: the time value, \<open>None\<close> for the \<open>NaN\<close> of an invalid
  date. On anything but a \<open>Date\<close> the call throws a \<open>TypeError\<close>.
\<close>

fun is_Date :: "jsval \<Rightarrow> bool" where
  "is_Date (VDate t) = True"
| "is_Date v = False"

definition time_of :: "obj \<Rightarrow> int option" where
  "time_of ob = (case get ob ''addedAt'' of VDate t \<Rightarrow> t | _ \<Rightarrow> None)"

text \<open>
  The comparison \<open>(a, b) => b.addedAt.getTime() - a.addedAt.getTime()\<close> as the sort reads
  it: the difference is \<open>NaN\<close> when one of the dates is invalid, and the sort takes \<open>NaN\<close> as
  \<open>+0\<close>.
\<close>

definition compare_added :: "obj list \<Rightarrow> addr \<Rightarrow> addr \<Rightarrow> int" where
  "compare_added h a b =
     (case time_of (obj_at h b) of
        None \<Rightarrow> 0
      | Some tb \<Rightarrow> (case time_of (obj_at h a) of None \<Rightarrow> 0 | Some ta \<Rightarrow> tb - ta))"

text \<open>
  \<open>listGadgets()\<close>: the references in the map, sorted with that comparison. The sort
  compares every element once at least when there are two or more, so the call throws
  when some \<open>addedAt\<close> is not a \<open>Date\<close> then. With an invalid date the comparison is not
  consistent; the call returns a rearrangement all the same, whose order the language
  leaves to the implementation (the one computed here is the order of insertion from the
  right).
\<close>

definition listGadgets :: "state \<Rightarrow> addr list outcome" where
  "listGadgets s =
     (let vs = map_values (gadgets s)
      in if 2 \<le> length vs \<and> \<not> list_all (\<lambda>a. is_Date (get (obj_at (heap s) a) ''addedAt'')) vs
         then Throw TypeError
         else Return (array_sort (compare_added (heap s)) vs))"

text \<open>
  \<open>a\<close> comes before \<open>b\<close> in descending order of \<open>addedAt\<close>: both have a valid date, and the
  date of \<open>b\<close> is not the later one.
\<close>

definition added_desc :: "obj list \<Rightarrow> addr \<Rightarrow> addr \<Rightarrow> bool" where
  "added_desc h a b =
     (case get (obj_at h a) ''addedAt'' of
        VDate (Some ta) \<Rightarrow>
          (case get (obj_at h b) ''addedAt'' of VDate (Some tb) \<Rightarrow> tb \<le> ta | _ \<Rightarrow> False)
      | _ \<Rightarrow> False)"

section \<open>Sequences of operations\<close>

text \<open>
  A call of one of the three mutating operations, with the values it draws from the clock
  and the random source. An exception leaves the state as it is at the throw.
\<close>

datatype op =
    Add string string jsnum string int int
  | Update string partial_gadget int
  | Delete string int

fun step :: "state \<Rightarrow> op \<Rightarrow> state" where
  "step s (Add n b p rnd added now) = snd (addGadget n b p rnd added now s)"
| "step s (Update ident data now) = snd (updateGadget ident data now s)"
| "step s (Delete ident now) = snd (deleteGadget ident now s)"

definition run :: "op list \<Rightarrow> state \<Rightarrow> state" where
  "run ops s = foldl step s ops"

section \<open>Well-formed stores\<close>

text \<open>
  What holds of the map in every store: an entry's key is the \<open>id\<close> of its object, its
  reference points into the heap, and no key occurs twice.
\<close>

primrec keys_distinct :: "(jsval \<times> 'a) list \<Rightarrow> bool" where
  "keys_distinct [] = True"
| "keys_distinct (p # ps) = (map_get (fst p) ps = None \<and> keys_distinct ps)"

definition keyed :: "obj list \<Rightarrow> (jsval \<times> addr) list \<Rightarrow> bool" where
  "keyed h m = list_all (\<lambda>p. snd p < length h \<and> get (obj_at h (snd p)) ''id'' = fst p) m"

text \<open>The references to snapshots held by the history.\<close>

fun slot_refs :: "slot \<Rightarrow> addr list" where
  "slot_refs (Ref a) = [a]"
| "slot_refs (Val v) = []"

definition entry_refs :: "entry \<Rightarrow> addr list" where
  "entry_refs e = concat (map (\<lambda>p. slot_refs (snd p)) e)"

definition snapshot_refs :: "state \<Rightarrow> addr list" where
  "snapshot_refs s = concat (map entry_refs (history s))"

definition well_formed :: "state \<Rightarrow> bool" where
  "well_formed s = (keyed (heap s) (gadgets s) \<and> keys_distinct (gadgets s) \<and>
           list_all (\<lambda>a. a < length (heap s) \<and> a \<notin> set (map_values (gadgets s)))
             (snapshot_refs s))"

section \<open>The example of the repository\<close>

text \<open>
  The store of \<open>example.ts\<close> after its two calls of \<open>addGadget\<close>, with fixed values for the
  random bytes and the clock.
\<close>

definition example_store :: state where
  "example_store =
     snd (addGadget ''Surface Pro 9'' ''Microsoft'' (Fin 1599) ''0b0b0b0b0b0b'' 1002 1003
       (snd (addGadget ''MacBook Pro'' ''Apple'' (Fin 2499) ''0a0a0a0a0a0a'' 1000 1001
         (new_tracker None []))))"

text \<open>
  Two objects of a caller, for the constructor: the first has an empty name and a negative
  price.
\<close>

definition caller_heap :: "obj list" where
  "caller_heap =
     [[(''id'', VStr ''g1''), (''name'', VStr ''''), (''brand'', VStr ''Acme''),
       (''price'', VNum (Fin (- 5))), (''addedAt'', VDate (Some 7))],
      [(''id'', VStr ''g2''), (''name'', VStr ''Phone''), (''brand'', VStr ''Acme''),
       (''price'', VNum (Fin 300)), (''addedAt'', VDate (Some 8))]]"

text \<open>Every object in the map has a valid \<open>Date\<close> as \<open>addedAt\<close>.\<close>

definition dated :: "state \<Rightarrow> bool" where
  "dated s = list_all (\<lambda>a. time_of (obj_at (heap s) a) \<noteq> None) (map_values (gadgets s))"

section \<open>Encrypted export and import\<close>

text \<open>
  The platform the class is written against: the hash and the cipher of Node's \<open>crypto\<close>,
  \<open>JSON.stringify\<close> and \<open>JSON.parse\<close> on text, and \<open>Date\<close>. They are parameters.
  \<open>'t\<close> is the type of the serialised text, \<open>'c\<close> that of the cipher text.
  \<open>aes_decrypt\<close> is \<open>None\<close> when \<open>createDecipheriv\<close>, \<open>update\<close> or \<open>final\<close> throws (a bad
  initialisation vector, a bad padding); \<open>json_parse\<close> is \<open>None\<close> for a syntax error;
  \<open>new_Date v\<close> is the time value of \<open>new Date(v)\<close>, \<open>None\<close> for an invalid date.
\<close>

record ('t, 'c) env =
  sha256 :: "string \<Rightarrow> string"
  aes_encrypt :: "string \<Rightarrow> string \<Rightarrow> 't \<Rightarrow> 'c"
  aes_decrypt :: "string \<Rightarrow> string \<Rightarrow> 'c \<Rightarrow> 't option"
  json_stringify :: "json \<Rightarrow> 't"
  json_parse :: "'t \<Rightarrow> json option"
  toISOString :: "int \<Rightarrow> string"
  new_Date :: "jsval \<Rightarrow> int option"

text \<open>The interface \<open>EncryptedExport\<close>.\<close>

record 'c EncryptedExport =
  export_version :: jsval
  iv :: string
  data :: 'c

definition createKey :: "('t, 'c) env \<Rightarrow> string \<Rightarrow> string" where
  "createKey E secret = sha256 E secret"

subsection \<open>From values to JSON\<close>

text \<open>
  What \<open>JSON.stringify\<close> makes of a value: \<open>None\<close> for \<open>undefined\<close>, which is left out of an
  object; \<open>null\<close> for \<open>NaN\<close>, the infinities and an invalid date; the ISO string for a date.
\<close>

fun to_json :: "(int \<Rightarrow> string) \<Rightarrow> jsval \<Rightarrow> json option" where
  "to_json fmt VUndefined = None"
| "to_json fmt VNull = Some JNull"
| "to_json fmt (VBool b) = Some (JBool b)"
| "to_json fmt (VNum (Fin r)) = Some (JNum r)"
| "to_json fmt (VNum NaN) = Some JNull"
| "to_json fmt (VNum PosInf) = Some JNull"
| "to_json fmt (VNum NegInf) = Some JNull"
| "to_json fmt (VStr s) = Some (JStr s)"
| "to_json fmt (VDate (Some t)) = Some (JStr (fmt t))"
| "to_json fmt (VDate None) = Some JNull"
| "to_json fmt (VCompound j) = Some j"

definition obj_json :: "(int \<Rightarrow> string) \<Rightarrow> obj \<Rightarrow> json" where
  "obj_json fmt ob = JObj (List.map_filter (\<lambda>p. map_option (Pair (fst p)) (to_json fmt (snd p))) ob)"

fun slot_json :: "(int \<Rightarrow> string) \<Rightarrow> obj list \<Rightarrow> slot \<Rightarrow> json option" where
  "slot_json fmt h (Ref a) = Some (obj_json fmt (obj_at h a))"
| "slot_json fmt h (Val v) = to_json fmt v"

definition entry_json :: "(int \<Rightarrow> string) \<Rightarrow> obj list \<Rightarrow> entry \<Rightarrow> json" where
  "entry_json fmt h e =
     JObj (List.map_filter (\<lambda>p. map_option (Pair (fst p)) (slot_json fmt h (snd p))) e)"

text \<open>
  The object literal \<open>{ gadgets: Array.from(this.gadgets.values()), history: this.history,
  version: this.version }\<close>, as JSON.
\<close>

definition payload :: "(int \<Rightarrow> string) \<Rightarrow> state \<Rightarrow> json" where
  "payload fmt s =
     JObj (List.map_filter (\<lambda>p. map_option (Pair (fst p)) (snd p))
       [(''gadgets'',
           Some (JArr (map (\<lambda>a. obj_json fmt (obj_at (heap s) a)) (map_values (gadgets s))))),
        (''history'', Some (JArr (map (entry_json fmt (heap s)) (history s)))),
        (''version'', to_json fmt (version s))])"

text \<open>
  \<open>exportEncrypted(secret)\<close>. \<open>rnd_iv\<close> is the hex string of the sixteen random bytes. The
  store is not changed.
\<close>

definition exportEncrypted ::
  "('t, 'c) env \<Rightarrow> string \<Rightarrow> string \<Rightarrow> state \<Rightarrow> 'c EncryptedExport" where
  "exportEncrypted E secret rnd_iv s =
     \<lparr>export_version = version s,
      iv = rnd_iv,
      data = aes_encrypt E (createKey E secret) rnd_iv
               (json_stringify E (payload (toISOString E) s))\<rparr>"

subsection \<open>From JSON to values\<close>

fun of_json :: "json \<Rightarrow> jsval" where
  "of_json JNull = VNull"
| "of_json (JBool b) = VBool b"
| "of_json (JNum r) = VNum (Fin r)"
| "of_json (JStr s) = VStr s"
| "of_json (JArr xs) = VCompound (JArr xs)"
| "of_json (JObj ps) = VCompound (JObj ps)"

text \<open>The decimal name of an array index.\<close>

fun decimal :: "nat \<Rightarrow> string" where
  "decimal n =
     (if n < 10 then [char_of (48 + n)] else decimal (n div 10) @ [char_of (48 + n mod 10)])"

declare decimal.simps [simp del]

definition index_props :: "'a list \<Rightarrow> (string \<times> 'a) list" where
  "index_props xs = zip (map decimal [0..<length xs]) xs"

text \<open>
  The own enumerable properties of a parsed value, those a spread \<open>{ ...h }\<close> copies: the
  properties of an object, the elements of an array and the characters of a string under
  their indices, none for a number, a boolean or \<open>null\<close>.
\<close>

fun spread_props :: "json \<Rightarrow> (string \<times> json) list" where
  "spread_props (JObj ps) = ps"
| "spread_props (JArr xs) = index_props xs"
| "spread_props (JStr s) = index_props (map (\<lambda>c. JStr [c]) s)"
| "spread_props j = []"

text \<open>
  Reading one of the properties \<open>gadgets\<close>, \<open>history\<close>, \<open>version\<close>, \<open>timestamp\<close> of a parsed
  value other than \<open>null\<close>: only an object can have them.
\<close>

fun json_prop :: "json \<Rightarrow> string \<Rightarrow> jsval" where
  "json_prop (JObj ps) k = (case map_of ps k of None \<Rightarrow> VUndefined | Some v \<Rightarrow> of_json v)"
| "json_prop j k = VUndefined"

fun isArray :: "jsval \<Rightarrow> bool" where
  "isArray (VCompound (JArr xs)) = True"
| "isArray v = False"

fun items :: "jsval \<Rightarrow> json list" where
  "items (VCompound (JArr xs)) = xs"
| "items v = []"

text \<open>
  The body of \<open>parsed.gadgets.forEach\<close>, for one element \<open>g\<close>. For \<open>null\<close> and for a
  primitive value the assignment \<open>g.addedAt = ...\<close> throws a \<open>TypeError\<close> (class bodies are
  strict code). An object or an array gets the property and goes into the map under \<open>g.id\<close>.
  The object made by \<open>JSON.parse\<close> enters the heap here; that an array is an array is not
  recorded.
\<close>

fun element_props :: "json \<Rightarrow> (string \<times> json) list option" where
  "element_props (JObj ps) = Some ps"
| "element_props (JArr xs) = Some (index_props xs)"
| "element_props j = None"

definition import_gadget :: "('t, 'c) env \<Rightarrow> json \<Rightarrow> state \<Rightarrow> unit outcome \<times> state" where
  "import_gadget E g s =
     (case element_props g of
        None \<Rightarrow> (Throw TypeError, s)
      | Some ps \<Rightarrow>
          let ob = map (\<lambda>p. (fst p, of_json (snd p))) ps;
              ob' = assign ''addedAt'' (VDate (new_Date E (get ob ''addedAt''))) ob;
              (a, h') = alloc ob' (heap s)
          in (Return (), s\<lparr>heap := h', gadgets := map_set (get ob' ''id'') a (gadgets s)\<rparr>))"

fun import_gadgets :: "('t, 'c) env \<Rightarrow> json list \<Rightarrow> state \<Rightarrow> unit outcome \<times> state" where
  "import_gadgets E [] s = (Return (), s)"
| "import_gadgets E (g # gs) s =
     (case import_gadget E g s of
        (Throw e, s') \<Rightarrow> (Throw e, s')
      | (Return u, s') \<Rightarrow> import_gadgets E gs s')"

text \<open>
  The function mapped over \<open>parsed.history\<close>: \<open>{ ...h, timestamp: new Date(h.timestamp) }\<close>.
  Reading \<open>h.timestamp\<close> throws for \<open>null\<close>. The \<open>gadget\<close> of the new entry is the parsed
  object, which nothing else refers to; it is kept by value.
\<close>

definition import_entry :: "('t, 'c) env \<Rightarrow> json \<Rightarrow> entry outcome" where
  "import_entry E hj =
     (if hj = JNull then Throw TypeError
      else Return (assign ''timestamp'' (Val (VDate (new_Date E (json_prop hj ''timestamp''))))
                     (map (\<lambda>p. (fst p, Val (of_json (snd p)))) (spread_props hj))))"

fun import_entries :: "('t, 'c) env \<Rightarrow> json list \<Rightarrow> entry list outcome" where
  "import_entries E [] = Return []"
| "import_entries E (hj # hs) =
     (case import_entry E hj of
        Throw e \<Rightarrow> Throw e
      | Return e \<Rightarrow>
          (case import_entries E hs of Throw e' \<Rightarrow> Throw e' | Return es \<Rightarrow> Return (e # es)))"

text \<open>
  The test \<open>!parsed || !Array.isArray(parsed.gadgets) || !Array.isArray(parsed.history)\<close>.
\<close>

definition invalid_shape :: "json \<Rightarrow> bool" where
  "invalid_shape parsed =
     (\<not> truthy (of_json parsed) \<or> \<not> isArray (json_prop parsed ''gadgets'')
      \<or> \<not> isArray (json_prop parsed ''history''))"

text \<open>
  \<open>importEncrypted(encryptedExport, secret)\<close>. The state returned with an exception is the
  state at the throw.
\<close>

definition importEncrypted ::
  "('t, 'c) env \<Rightarrow> 'c EncryptedExport \<Rightarrow> string \<Rightarrow> state \<Rightarrow> unit outcome \<times> state" where
  "importEncrypted E encryptedExport secret s =
     (case aes_decrypt E (createKey E secret) (iv encryptedExport) (data encryptedExport) of
        None \<Rightarrow> (Throw CipherError, s)
      | Some decrypted \<Rightarrow>
          (case json_parse E decrypted of
             None \<Rightarrow> (Throw SyntaxError, s)
           | Some parsed \<Rightarrow>
               if invalid_shape parsed
               then (Throw (Error ''Invalid encrypted data.''), s)
               else
                 (case import_gadgets E (items (json_prop parsed ''gadgets''))
                         (s\<lparr>gadgets := []\<rparr>) of
                    (Throw e, s') \<Rightarrow> (Throw e, s')
                  | (Return u, s') \<Rightarrow>
                      (case import_entries E (items (json_prop parsed ''history'')) of
                         Throw e \<Rightarrow> (Throw e, s')
                       | Return es \<Rightarrow>
                           (Return (),
                            s'\<lparr>history := es,
                               version := (if truthy (json_prop parsed ''version'')
                                           then json_prop parsed ''version''
                                           else VNum (Fin 1))\<rparr>)))))"

subsection \<open>A stand-in for the platform\<close>

text \<open>
  An instance to run examples with: the text is the JSON value itself, the cipher text is
  the plain text tagged with key and vector, and a date is printed as a signed decimal
  number of milliseconds.
\<close>

fun undecimal :: "string \<Rightarrow> nat" where
  "undecimal s = foldl (\<lambda>n c. 10 * n + (of_char c - 48)) 0 s"

definition test_iso :: "int \<Rightarrow> string" where
  "test_iso t = (if t < 0 then CHR ''-'' # decimal (nat (- t)) else CHR ''+'' # decimal (nat t))"

fun test_new_Date :: "jsval \<Rightarrow> int option" where
  "test_new_Date (VStr (c # s)) =
     (if c = CHR ''-'' then Some (- int (undecimal s))
      else if c = CHR ''+'' then Some (int (undecimal s)) else None)"
| "test_new_Date v = None"

definition test_env :: "(json, string \<times> string \<times> json) env" where
  "test_env =
     \<lparr>sha256 = (\<lambda>secret. ''sha256:'' @ secret),
      aes_encrypt = (\<lambda>key vec txt. (key, vec, txt)),
      aes_decrypt = (\<lambda>key vec c. if fst c = key \<and> fst (snd c) = vec then Some (snd (snd c)) else None),
      json_stringify = (\<lambda>j. j),
      json_parse = Some,
      toISOString = test_iso,
      new_Date = test_new_Date\<rparr>"

section \<open>The stores a program can reach\<close>

text \<open>
  A store is made by the constructor, from references to objects that exist, and changed
  by the four mutating methods, whatever they return or throw.
\<close>

inductive reachable :: "('t, 'c) env \<Rightarrow> state \<Rightarrow> bool" for E :: "('t, 'c) env" where
  by_constructor:
    "(case initialGadgets of None \<Rightarrow> True | Some gs \<Rightarrow> list_all (\<lambda>g. g < length h) gs) \<Longrightarrow>
     reachable E (new_tracker initialGadgets h)"
| by_addGadget:
    "reachable E s \<Longrightarrow> reachable E (snd (addGadget n b p rnd t now s))"
| by_updateGadget:
    "reachable E s \<Longrightarrow> reachable E (snd (updateGadget ident d now s))"
| by_deleteGadget:
    "reachable E s \<Longrightarrow> reachable E (snd (deleteGadget ident now s))"
| by_importEncrypted:
    "reachable E s \<Longrightarrow> reachable E (snd (importEncrypted E x secret s))"

text \<open>
  A history entry with its references followed: what a reader of the history sees.
\<close>

fun resolve_slot :: "obj list \<Rightarrow> slot \<Rightarrow> obj + jsval" where
  "resolve_slot h (Ref a) = Inl (obj_at h a)"
| "resolve_slot h (Val v) = Inr v"

definition resolve :: "obj list \<Rightarrow> entry \<Rightarrow> (string \<times> (obj + jsval)) list" where
  "resolve h e = map (\<lambda>p. (fst p, resolve_slot h (snd p))) e"

section \<open>Predicates on the stored gadgets\<close>

text \<open>\<open>P\<close> holds of every object in the map.\<close>

definition objs_all :: "(obj \<Rightarrow> bool) \<Rightarrow> state \<Rightarrow> bool" where
  "objs_all P s = list_all (\<lambda>a. P (obj_at (heap s) a)) (map_values (gadgets s))"

text \<open>
  The invariant of the data model: the name and the brand are non-empty strings, the price
  is a number that is at least zero.
\<close>

fun nonneg :: "jsnum \<Rightarrow> bool" where
  "nonneg (Fin r) = (0 \<le> r)"
| "nonneg PosInf = True"
| "nonneg NaN = False"
| "nonneg NegInf = False"

definition valid_gadget :: "obj \<Rightarrow> bool" where
  "valid_gadget ob =
     ((case get ob ''name'' of VStr n \<Rightarrow> n \<noteq> [] | _ \<Rightarrow> False) \<and>
      (case get ob ''brand'' of VStr b \<Rightarrow> b \<noteq> [] | _ \<Rightarrow> False) \<and>
      (case get ob ''price'' of VNum p \<Rightarrow> nonneg p | _ \<Rightarrow> False))"

definition all_valid :: "state \<Rightarrow> bool" where
  "all_valid s = objs_all valid_gadget s"

text \<open>
  Calls that pass no \<open>NaN\<close> as price and, to \<open>updateGadget\<close>, no empty name or brand.
\<close>

fun sane :: "op \<Rightarrow> bool" where
  "sane (Add n b p rnd added now) = (p \<noteq> NaN)"
| "sane (Update ident d now) = (name d \<noteq> Some [] \<and> brand d \<noteq> Some [] \<and> price d \<noteq> Some NaN)"
| "sane (Delete ident now) = True"

text \<open>
  An export whose payload holds one gadget with an empty name and the price \<open>-5\<close>, under
  the secret \<open>k\<close> of the stand-in cipher.
\<close>

definition unvalidated_export :: "(string \<times> string \<times> json) EncryptedExport" where
  "unvalidated_export =
     \<lparr>export_version = VNum (Fin 1), iv = ''00'',
      data = (''sha256:k'', ''00'',
              JObj [(''gadgets'',
                       JArr [JObj [(''id'', JStr ''g1''), (''name'', JStr ''''),
                                   (''brand'', JStr ''Acme''), (''price'', JNum (- 5)),
                                   (''addedAt'', JStr ''+7'')]]),
                    (''history'', JArr []),
                    (''version'', JNum 1)])\<rparr>"

text \<open>The calls of \<open>example.ts\<close>, the update on the first gadget.\<close>

definition example_ops :: "op list" where
  "example_ops =
     [Add ''MacBook Pro'' ''Apple'' (Fin 2499) ''0a0a0a0a0a0a'' 1000 1001,
      Add ''Surface Pro 9'' ''Microsoft'' (Fin 1599) ''0b0b0b0b0b0b'' 1002 1003,
      Update ''gadget-0a0a0a0a0a0a'' \<lparr>name = None, brand = None, price = Some (Fin 2399)\<rparr> 1004]"

section \<open>Comparing two stores\<close>

text \<open>
  A gadget is compared by \<open>id\<close>, \<open>name\<close>, \<open>brand\<close> and \<open>price\<close>; a history entry by its
  \<open>action\<close>, the snapshot under \<open>gadget\<close> compared as a gadget, and its \<open>timestamp\<close>. The
  snapshot is an object on the heap in an entry made by \<open>recordHistory\<close> and a parsed object
  in an entry made by \<open>importEncrypted\<close>.
\<close>

definition gadget_fields :: "obj \<Rightarrow> jsval \<times> jsval \<times> jsval \<times> jsval" where
  "gadget_fields ob = (get ob ''id'', get ob ''name'', get ob ''brand'', get ob ''price'')"

definition gadgets_view :: "state \<Rightarrow> (jsval \<times> jsval \<times> jsval \<times> jsval) list" where
  "gadgets_view s = map (\<lambda>a. gadget_fields (obj_at (heap s) a)) (map_values (gadgets s))"

fun snapshot_obj :: "obj list \<Rightarrow> slot option \<Rightarrow> obj" where
  "snapshot_obj h (Some (Ref a)) = obj_at h a"
| "snapshot_obj h (Some (Val (VCompound (JObj ps)))) = map (\<lambda>p. (fst p, of_json (snd p))) ps"
| "snapshot_obj h sl = []"

definition entry_view ::
  "obj list \<Rightarrow> entry \<Rightarrow> slot option \<times> (jsval \<times> jsval \<times> jsval \<times> jsval) \<times> slot option" where
  "entry_view h e =
     (map_of e ''action'', gadget_fields (snapshot_obj h (map_of e ''gadget'')),
      map_of e ''timestamp'')"

definition history_view ::
  "state \<Rightarrow> (slot option \<times> (jsval \<times> jsval \<times> jsval \<times> jsval) \<times> slot option) list" where
  "history_view s = map (entry_view (heap s)) (history s)"

text \<open>
  Calls whose prices are finite numbers and whose clock readings the platform prints and
  reads back.
\<close>

definition date_ok :: "('t, 'c) env \<Rightarrow> int \<Rightarrow> bool" where
  "date_ok E t = (new_Date E (VStr (toISOString E t)) = Some t)"

fun is_finite :: "jsnum \<Rightarrow> bool" where
  "is_finite (Fin r) = True"
| "is_finite x = False"

fun portable :: "('t, 'c) env \<Rightarrow> op \<Rightarrow> bool" where
  "portable E (Add n b p rnd added now) = (is_finite p \<and> date_ok E added \<and> date_ok E now)"
| "portable E (Update ident d now) =
     ((case price d of None \<Rightarrow> True | Some p \<Rightarrow> is_finite p) \<and> date_ok E now)"
| "portable E (Delete ident now) = date_ok E now"

text \<open>
  The shape of the objects and entries the three operations make from such calls.
\<close>

definition typed_gadget :: "('t, 'c) env \<Rightarrow> obj \<Rightarrow> bool" where
  "typed_gadget E ob =
     (\<exists>i n b r t. ob = [(''id'', VStr i), (''name'', VStr n), (''brand'', VStr b),
                        (''price'', VNum (Fin r)), (''addedAt'', VDate (Some t))] \<and>
                  date_ok E t)"

definition typed_entry :: "('t, 'c) env \<Rightarrow> obj list \<Rightarrow> entry \<Rightarrow> bool" where
  "typed_entry E h e =
     (\<exists>a c t. e = [(''action'', Val (VStr a)), (''gadget'', Ref c),
                   (''timestamp'', Val (VDate (Some t)))] \<and>
              date_ok E t \<and> typed_gadget E (obj_at h c))"

definition typed_store :: "('t, 'c) env \<Rightarrow> state \<Rightarrow> bool" where
  "typed_store E s =
     (well_formed s \<and> objs_all (typed_gadget E) s \<and>
      list_all (typed_entry E (heap s)) (history s))"

text \<open>A store whose only gadget was added with the price \<open>NaN\<close>.\<close>

definition nan_store :: state where
  "nan_store = snd (addGadget ''Phone'' ''Acme'' NaN ''0c0c0c0c0c0c'' 1006 1007 (new_tracker None []))"


section \<open>Stores made from valid input\<close>

text \<open>
  An element of an imported \<open>gadgets\<close> array is acceptable when, being an object, it
  satisfies the invariant of the data model; \<open>null\<close> and primitive values install nothing.
\<close>

definition valid_element :: "json \<Rightarrow> bool" where
  "valid_element g =
     (case element_props g of
        None \<Rightarrow> True
      | Some ps \<Rightarrow> valid_gadget (map (\<lambda>p. (fst p, of_json (snd p))) ps))"

text \<open>The elements \<open>importEncrypted\<close> would install from an export, if it gets that far.\<close>

definition payload_gadgets :: "('t, 'c) env \<Rightarrow> 'c EncryptedExport \<Rightarrow> string \<Rightarrow> json list" where
  "payload_gadgets E x secret =
     (case aes_decrypt E (createKey E secret) (iv x) (data x) of
        None \<Rightarrow> []
      | Some decrypted \<Rightarrow>
          (case json_parse E decrypted of
             None \<Rightarrow> []
           | Some parsed \<Rightarrow> items (json_prop parsed ''gadgets'')))"

text \<open>
  The stores reached when the constructor is given valid gadgets, no call passes \<open>NaN\<close> as
  a price, \<open>updateGadget\<close> is given no empty name or brand, and every imported gadget is
  valid.
\<close>

inductive valid_reachable :: "('t, 'c) env \<Rightarrow> state \<Rightarrow> bool" for E :: "('t, 'c) env" where
  valid_constructor:
    "(case initialGadgets of
        None \<Rightarrow> True
      | Some gs \<Rightarrow> list_all (\<lambda>g. g < length h \<and> valid_gadget (obj_at h g)) gs) \<Longrightarrow>
     valid_reachable E (new_tracker initialGadgets h)"
| valid_addGadget:
    "valid_reachable E s \<Longrightarrow> p \<noteq> NaN \<Longrightarrow>
     valid_reachable E (snd (addGadget n b p rnd t now s))"
| valid_updateGadget:
    "valid_reachable E s \<Longrightarrow> name d \<noteq> Some [] \<Longrightarrow> brand d \<noteq> Some [] \<Longrightarrow>
     price d \<noteq> Some NaN \<Longrightarrow>
     valid_reachable E (snd (updateGadget ident d now s))"
| valid_deleteGadget:
    "valid_reachable E s \<Longrightarrow> valid_reachable E (snd (deleteGadget ident now s))"
| valid_importEncrypted:
    "valid_reachable E s \<Longrightarrow> list_all valid_element (payload_gadgets E x secret) \<Longrightarrow>
     valid_reachable E (snd (importEncrypted E x secret s))"

text \<open>
  An export with one valid gadget, and a history entry, under the secret \<open>k\<close> of the
  stand-in cipher.
\<close>

definition valid_export :: "(string \<times> string \<times> json) EncryptedExport" where
  "valid_export =
     \<lparr>export_version = VNum (Fin 1), iv = ''000102030405060708090a0b0c0d0e0f'',
      data = (''sha256:k'', ''000102030405060708090a0b0c0d0e0f'',
              JObj [(''gadgets'',
                       JArr [JObj [(''id'', JStr ''g9''), (''name'', JStr ''Tablet''),
                                   (''brand'', JStr ''Acme''), (''price'', JNum 120),
                                   (''addedAt'', JStr ''+9'')]]),
                    (''history'', JArr []),
                    (''version'', JNum 1)])\<rparr>"

text \<open>
  Three objects of a caller, the second with an invalid date (\<open>new Date(NaN)\<close>).
\<close>

definition undated_heap :: "obj list" where
  "undated_heap =
     [[(''id'', VStr ''g1''), (''name'', VStr ''Phone''), (''brand'', VStr ''Acme''),
       (''price'', VNum (Fin 300)), (''addedAt'', VDate (Some 1))],
      [(''id'', VStr ''g2''), (''name'', VStr ''Watch''), (''brand'', VStr ''Acme''),
       (''price'', VNum (Fin 200)), (''addedAt'', VDate None)],
      [(''id'', VStr ''g3''), (''name'', VStr ''Tablet''), (''brand'', VStr ''Acme''),
       (''price'', VNum (Fin 120)), (''addedAt'', VDate (Some 5))]]"

text \<open>Two objects of a caller with the same id.\<close>

definition twin_heap :: "obj list" where
  "twin_heap =
     [[(''id'', VStr ''g1''), (''name'', VStr ''First''), (''brand'', VStr ''Acme''),
       (''price'', VNum (Fin 1)), (''addedAt'', VDate (Some 7))],
      [(''id'', VStr ''g1''), (''name'', VStr ''Second''), (''brand'', VStr ''Acme''),
       (''price'', VNum (Fin 2)), (''addedAt'', VDate (Some 8))],
      [(''id'', VStr ''g2''), (''name'', VStr ''Third''), (''brand'', VStr ''Acme''),
       (''price'', VNum (Fin 3)), (''addedAt'', VDate (Some 9))]]"

text \<open>Three calls of \<open>addGadget\<close>, the first two within the same millisecond.\<close>

definition tie_ops :: "op list" where
  "tie_ops =
     [Add ''Phone'' ''Acme'' (Fin 300) ''0a0a0a0a0a0a'' 5 5,
      Add ''Watch'' ''Acme'' (Fin 200) ''0b0b0b0b0b0b'' 5 5,
      Add ''Tablet'' ''Acme'' (Fin 120) ''0c0c0c0c0c0c'' 9 9]"

text \<open>
  A store made from a valid object of the caller, one call of \<open>addGadget\<close> and one of
  \<open>updateGadget\<close>, and the store after importing the valid export into it.
\<close>

definition valid_store :: state where
  "valid_store =
     snd (updateGadget ''g2'' \<lparr>name = Some ''Renamed'', brand = None, price = Some (Fin 250)\<rparr> 11
       (snd (addGadget ''Laptop'' ''Acme'' (Fin 900) ''0a0a0a0a0a0a'' 10 10
         (new_tracker (Some [1]) caller_heap))))"

definition valid_imported_store :: state where
  "valid_imported_store = snd (importEncrypted test_env valid_export ''k'' valid_store)"

section \<open>Properties of the helpers\<close>

lemma get_assign: "get (assign k v ob) k' = (if k' = k then v else get ob k')"
  by (induction ob) (auto simp: get_def)

lemma obj_at_update:
  "obj_at (h[a := ob]) a' = (if a' = a \<and> a < length h then ob else obj_at h a')"
  by (auto simp: obj_at_def)

lemma obj_at_append:
  "obj_at (h @ [ob]) a = (if a = length h then ob else obj_at h a)"
  by (auto simp: obj_at_def nth_append)

lemma map_get_Some_mem: "map_get k m = Some a \<Longrightarrow> (k, a) \<in> set m"
  by (induction m) (auto simp: same_key_def split: if_splits)

lemma map_get_delete: "map_get k (map_delete k m) = None"
  by (induction m) (auto simp: map_delete_def)

lemma map_get_None_iff: "map_get k m = None \<longleftrightarrow> (\<forall>p\<in>set m. \<not> same_key (fst p) k)"
  by (induction m) auto

lemma keyed_mem:
  "keyed h m \<Longrightarrow> (k, a) \<in> set m \<Longrightarrow> a < length h \<and> get (obj_at h a) ''id'' = k"
  by (auto simp: keyed_def list_all_iff)

lemma keyed_value_key:
  "keyed h m \<Longrightarrow> (k, a) \<in> set m \<Longrightarrow> (k', a) \<in> set m \<Longrightarrow> k' = k"
  by (auto dest: keyed_mem)

lemma set_insort_cmp: "set (insort_cmp c x xs) = insert x (set xs)"
  by (induction xs) auto

lemma set_array_sort: "set (array_sort c xs) = set xs"
  by (induction xs) (auto simp: array_sort_def set_insort_cmp)

text \<open>
  An object is stored under one key only, so deleting its key removes it from the values.
\<close>

lemma map_delete_value_gone:
  assumes "keyed h m" "map_get k m = Some g"
  shows "g \<notin> set (map_values (map_delete k m))"
proof
  assume "g \<in> set (map_values (map_delete k m))"
  then obtain k' where in': "(k', g) \<in> set m" and nk: "\<not> same_key k' k"
    by (auto simp: map_values_def map_delete_def)
  from assms(2) have "(k, g) \<in> set m" by (rule map_get_Some_mem)
  with assms(1) in' have "k' = k" by (blast dest: keyed_value_key)
  moreover from assms(2) have "\<exists>p\<in>set m. same_key (fst p) k"
    using map_get_None_iff[of k m] by auto
  then have "same_key k k" by (auto simp: same_key_def)
  ultimately show False using nk by simp
qed

section \<open>addGadget\<close>

text \<open>
  Claim C5. A call of \<open>addGadget\<close> with an empty name, an empty brand or a negative price
  throws the error \<open>Invalid gadget data.\<close> and leaves the whole state as it was: no object
  is stored, the map and the history are those before the call.
\<close>

theorem addGadget_invalid_rejected:
  "n = [] \<or> b = [] \<or> lt_zero p \<Longrightarrow>
   addGadget n b p rnd added now s = (Throw (Error ''Invalid gadget data.''), s)"
  by (simp add: addGadget_def)

theorem addGadget_invalid_rejected_witness:
  "(''MacBook Pro'' = [] \<or> ''Apple'' = [] \<or> lt_zero (Fin (- 1))) \<and>
   addGadget ''MacBook Pro'' ''Apple'' (Fin (- 1)) ''0c0c0c0c0c0c'' 1004 1005 example_store =
     (Throw (Error ''Invalid gadget data.''), example_store)"
  using addGadget_invalid_rejected
    [of "''MacBook Pro''" "''Apple''" "Fin (- 1)" "''0c0c0c0c0c0c''" 1004 1005 example_store]
  by simp

section \<open>The example store\<close>

text \<open>The example store, evaluated.\<close>

lemmas example_defs = example_store_def addGadget_def new_tracker_def recordHistory_def alloc_def
  generateId_def obj_at_def same_key_def Let_def

lemma example_store_eq:
  "example_store =
     \<lparr>heap =
        [[(''id'', VStr ''gadget-0a0a0a0a0a0a''), (''name'', VStr ''MacBook Pro''),
          (''brand'', VStr ''Apple''), (''price'', VNum (Fin 2499)),
          (''addedAt'', VDate (Some 1000))],
         [(''id'', VStr ''gadget-0a0a0a0a0a0a''), (''name'', VStr ''MacBook Pro''),
          (''brand'', VStr ''Apple''), (''price'', VNum (Fin 2499)),
          (''addedAt'', VDate (Some 1000))],
         [(''id'', VStr ''gadget-0b0b0b0b0b0b''), (''name'', VStr ''Surface Pro 9''),
          (''brand'', VStr ''Microsoft''), (''price'', VNum (Fin 1599)),
          (''addedAt'', VDate (Some 1002))],
         [(''id'', VStr ''gadget-0b0b0b0b0b0b''), (''name'', VStr ''Surface Pro 9''),
          (''brand'', VStr ''Microsoft''), (''price'', VNum (Fin 1599)),
          (''addedAt'', VDate (Some 1002))]],
      gadgets = [(VStr ''gadget-0a0a0a0a0a0a'', 0), (VStr ''gadget-0b0b0b0b0b0b'', 2)],
      history =
        [[(''action'', Val (VStr ''ADD'')), (''gadget'', Ref 1),
          (''timestamp'', Val (VDate (Some 1001)))],
         [(''action'', Val (VStr ''ADD'')), (''gadget'', Ref 3),
          (''timestamp'', Val (VDate (Some 1003)))]],
      version = VNum (Fin 1)\<rparr>"
  by (simp add: example_defs)

lemma well_formed_example_store: "well_formed example_store"
  by (simp add: example_store_eq well_formed_def keyed_def obj_at_def get_def same_key_def
      snapshot_refs_def entry_refs_def map_values_def)

lemma obj_at_app:
  "obj_at (h @ h') a = (if a < length h then obj_at h a else obj_at h' (a - length h))"
  by (auto simp: obj_at_def nth_append)

lemma obj_at_Cons: "obj_at (ob # h) a = (case a of 0 \<Rightarrow> ob | Suc n \<Rightarrow> obj_at h n)"
  by (auto simp: obj_at_def split: nat.splits)

lemma obj_at_Nil [simp]: "obj_at [] a = []"
  by (simp add: obj_at_def)

section \<open>updateGadget\<close>

lemma heap_write_prop [simp]:
  "heap (write_prop a k v s) = (heap s)[a := assign k v (obj_at (heap s) a)]"
  "gadgets (write_prop a k v s) = gadgets s"
  "history (write_prop a k v s) = history s"
  "version (write_prop a k v s) = version s"
  by (simp_all add: write_prop_def)

text \<open>
  Claim C8. For an id the map does not hold, \<open>updateGadget\<close> returns \<open>null\<close> without an
  exception and leaves the whole state, the history with it, as it was. For an id the map
  holds, in a well-formed store, and data whose price, if given, is not negative, the call
  returns the stored object; each of \<open>name\<close>, \<open>brand\<close> and \<open>price\<close> has the given value if
  one was given and its old value otherwise, every other property of the object and every
  other object on the heap is as before, and so is the map.
\<close>

theorem updateGadget_spec:
  "(map_get (VStr ident) (gadgets s) = None \<longrightarrow>
      updateGadget ident upd now s = (Return None, s)) \<and>
   (\<forall>g. well_formed s \<and> map_get (VStr ident) (gadgets s) = Some g \<and>
        (\<forall>p. price upd = Some p \<longrightarrow> \<not> lt_zero p) \<longrightarrow>
      (case updateGadget ident upd now s of (r, s') \<Rightarrow>
         r = Return (Some g) \<and>
         gadgets s' = gadgets s \<and>
         get (obj_at (heap s') g) ''name'' =
           (case name upd of None \<Rightarrow> get (obj_at (heap s) g) ''name'' | Some n \<Rightarrow> VStr n) \<and>
         get (obj_at (heap s') g) ''brand'' =
           (case brand upd of None \<Rightarrow> get (obj_at (heap s) g) ''brand'' | Some b \<Rightarrow> VStr b) \<and>
         get (obj_at (heap s') g) ''price'' =
           (case price upd of None \<Rightarrow> get (obj_at (heap s) g) ''price'' | Some p \<Rightarrow> VNum p) \<and>
         (\<forall>k. k \<notin> {''name'', ''brand'', ''price''} \<longrightarrow>
            get (obj_at (heap s') g) k = get (obj_at (heap s) g) k) \<and>
         (\<forall>a. a < length (heap s) \<and> a \<noteq> g \<longrightarrow> obj_at (heap s') a = obj_at (heap s) a)))"
proof (intro conjI allI impI)
  show "updateGadget ident upd now s = (Return None, s)"
    if "map_get (VStr ident) (gadgets s) = None"
    using that by (simp add: updateGadget_def)
next
  fix g
  assume a: "well_formed s \<and> map_get (VStr ident) (gadgets s) = Some g \<and>
             (\<forall>p. price upd = Some p \<longrightarrow> \<not> lt_zero p)"
  then have mg: "map_get (VStr ident) (gadgets s) = Some g"
    and ok: "\<not> (case price upd of None \<Rightarrow> False | Some p \<Rightarrow> lt_zero p)"
    and k: "keyed (heap s) (gadgets s)"
    by (auto simp: well_formed_def split: option.splits)
  have lt: "g < length (heap s)" using keyed_mem[OF k map_get_Some_mem[OF mg]] by simp
  show "case updateGadget ident upd now s of (r, s') \<Rightarrow>
         r = Return (Some g) \<and>
         gadgets s' = gadgets s \<and>
         get (obj_at (heap s') g) ''name'' =
           (case name upd of None \<Rightarrow> get (obj_at (heap s) g) ''name'' | Some n \<Rightarrow> VStr n) \<and>
         get (obj_at (heap s') g) ''brand'' =
           (case brand upd of None \<Rightarrow> get (obj_at (heap s) g) ''brand'' | Some b \<Rightarrow> VStr b) \<and>
         get (obj_at (heap s') g) ''price'' =
           (case price upd of None \<Rightarrow> get (obj_at (heap s) g) ''price'' | Some p \<Rightarrow> VNum p) \<and>
         (\<forall>k. k \<notin> {''name'', ''brand'', ''price''} \<longrightarrow>
            get (obj_at (heap s') g) k = get (obj_at (heap s) g) k) \<and>
         (\<forall>a. a < length (heap s) \<and> a \<noteq> g \<longrightarrow> obj_at (heap s') a = obj_at (heap s) a)"
    using mg ok lt
    by (auto simp: updateGadget_def recordHistory_def alloc_def Let_def obj_at_app
        obj_at_update get_assign split: option.splits)
qed

theorem updateGadget_spec_witness:
  "map_get (VStr ''gadget-none'') (gadgets example_store) = None \<and>
   updateGadget ''gadget-none'' \<lparr>name = None, brand = None, price = Some (Fin 2399)\<rparr> 1006
     example_store = (Return None, example_store) \<and>
   well_formed example_store \<and>
   map_get (VStr ''gadget-0b0b0b0b0b0b'') (gadgets example_store) = Some 2 \<and>
   \<not> lt_zero (Fin 2399) \<and>
   (case updateGadget ''gadget-0b0b0b0b0b0b''
           \<lparr>name = None, brand = None, price = Some (Fin 2399)\<rparr> 1006 example_store of
      (r, s') \<Rightarrow>
        r = Return (Some 2) \<and>
        get (obj_at (heap s') 2) ''name'' = VStr ''Surface Pro 9'' \<and>
        get (obj_at (heap s') 2) ''brand'' = VStr ''Microsoft'' \<and>
        get (obj_at (heap s') 2) ''price'' = VNum (Fin 2399) \<and>
        get (obj_at (heap s') 2) ''id'' = VStr ''gadget-0b0b0b0b0b0b'' \<and>
        obj_at (heap s') 0 = obj_at (heap example_store) 0)"
proof -
  have m: "map_get (VStr ''gadget-0b0b0b0b0b0b'') (gadgets example_store) = Some 2"
    by (simp add: example_store_eq same_key_def)
  have n: "map_get (VStr ''gadget-none'') (gadgets example_store) = None"
    by (simp add: example_store_eq same_key_def)
  have g: "get (obj_at (heap example_store) 2) ''name'' = VStr ''Surface Pro 9''"
    "get (obj_at (heap example_store) 2) ''brand'' = VStr ''Microsoft''"
    "get (obj_at (heap example_store) 2) ''id'' = VStr ''gadget-0b0b0b0b0b0b''"
    "length (heap example_store) = 4"
    by (simp_all add: example_store_eq obj_at_def get_def)
  show ?thesis
    using updateGadget_spec
        [of "''gadget-0b0b0b0b0b0b''" example_store
          "\<lparr>name = None, brand = None, price = Some (Fin 2399)\<rparr>" 1006]
      updateGadget_spec
        [of "''gadget-none''" example_store
          "\<lparr>name = None, brand = None, price = Some (Fin 2399)\<rparr>" 1006]
      well_formed_example_store m n g
    by (auto split: prod.splits)
qed

text \<open>
  What \<open>updateGadget\<close> does with a negative price: the exception comes after the assignments
  to \<open>name\<close> and \<open>brand\<close>, which stay in the stored object, and no history entry is made.
\<close>

lemma updateGadget_negative_price:
  assumes "map_get (VStr ident) (gadgets s) = Some g" "price upd = Some p" "lt_zero p"
  shows "updateGadget ident upd now s =
           (Throw (Error ''Price cannot be negative.''),
            (case brand upd of
               None \<Rightarrow> (\<lambda>s. s)
             | Some b \<Rightarrow> write_prop g ''brand'' (VStr b))
              ((case name upd of
                  None \<Rightarrow> (\<lambda>s. s)
                | Some n \<Rightarrow> write_prop g ''name'' (VStr n)) s))"
  using assms by (simp add: updateGadget_def Let_def split: option.splits)

lemma updateGadget_only_negative_price:
  assumes "map_get (VStr ident) (gadgets s) = Some g" "lt_zero p"
  shows "updateGadget ident \<lparr>name = None, brand = None, price = Some p\<rparr> now s =
           (Throw (Error ''Price cannot be negative.''), s)"
  using assms by (simp add: updateGadget_def)

text \<open>
  Claim C3, on the example store: \<open>updateGadget(id, {name: 'Renamed', price: -1})\<close> throws,
  and the stored object, whose name was \<open>MacBook Pro\<close>, has the name \<open>Renamed\<close> afterwards.
\<close>

theorem updateGadget_negative_price_renames:
  "get (obj_at (heap example_store) 0) ''name'' = VStr ''MacBook Pro'' \<and>
   fst (updateGadget ''gadget-0a0a0a0a0a0a''
          \<lparr>name = Some ''Renamed'', brand = None, price = Some (Fin (- 1))\<rparr> 1006 example_store)
     = Throw (Error ''Price cannot be negative.'') \<and>
   get (obj_at (heap (snd (updateGadget ''gadget-0a0a0a0a0a0a''
          \<lparr>name = Some ''Renamed'', brand = None, price = Some (Fin (- 1))\<rparr> 1006 example_store))) 0)
     ''name'' = VStr ''Renamed'' \<and>
   history (snd (updateGadget ''gadget-0a0a0a0a0a0a''
          \<lparr>name = Some ''Renamed'', brand = None, price = Some (Fin (- 1))\<rparr> 1006 example_store))
     = history example_store"
  by (simp add: updateGadget_def example_store_eq same_key_def obj_at_def get_def write_prop_def)

section \<open>The constructor\<close>

lemma map_set_fresh:
  "\<forall>p\<in>set m. \<not> same_key (fst p) k \<Longrightarrow> map_set k v m = m @ [(k, v)]"
  by (induction m) auto

lemma set_map_set: "set (map_set k v m) \<subseteq> insert (k, v) (set m)"
  by (induction m) (auto simp: same_key_def)

lemma map_get_map_set:
  "map_get k (map_set k' v m) = (if same_key k' k then Some v else map_get k m)"
  by (induction m) (auto simp: same_key_def)

lemma foldl_install_entries:
  "set (foldl (install h) m gl) \<subseteq> set m \<union> (\<lambda>g. (get (obj_at h g) ''id'', g)) ` set gl"
proof (induction gl arbitrary: m)
  case Nil
  show ?case by simp
next
  case (Cons g gl)
  have "set (foldl (install h) (install h m g) gl)
          \<subseteq> set (install h m g) \<union> (\<lambda>g. (get (obj_at h g) ''id'', g)) ` set gl"
    by (rule Cons.IH)
  moreover have "set (install h m g) \<subseteq> insert (get (obj_at h g) ''id'', g) (set m)"
    unfolding install_def by (rule set_map_set)
  ultimately show ?case by auto
qed

lemma foldl_install_bound:
  assumes "g \<in> set gl" "\<not> is_object (get (obj_at h g) ''id'')"
  shows "\<exists>a\<in>set gl. map_get (get (obj_at h g) ''id'') (foldl (install h) m gl) = Some a \<and>
           get (obj_at h a) ''id'' = get (obj_at h g) ''id''"
  using assms
proof (induction gl arbitrary: m rule: rev_induct)
  case Nil
  then show ?case by simp
next
  case (snoc x gl)
  show ?case
  proof (cases "same_key (get (obj_at h x) ''id'') (get (obj_at h g) ''id'')")
    case True
    then show ?thesis by (auto simp: install_def map_get_map_set same_key_def)
  next
    case False
    with snoc.prems have "g \<in> set gl" by (auto simp: same_key_def)
    from snoc.IH[OF this snoc.prems(2)] False show ?thesis
      by (auto simp: install_def map_get_map_set)
  qed
qed

lemma foldl_install_distinct:
  assumes "distinct (map (\<lambda>g. get (obj_at h g) ''id'') gl)"
  shows "foldl (install h) [] gl = map (\<lambda>g. (get (obj_at h g) ''id'', g)) gl"
  using assms
proof (induction gl rule: rev_induct)
  case Nil
  show ?case by simp
next
  case (snoc x gl)
  then have "\<forall>p\<in>set (map (\<lambda>g. (get (obj_at h g) ''id'', g)) gl).
               \<not> same_key (fst p) (get (obj_at h x) ''id'')"
    by (force simp: same_key_def)
  with snoc show ?case by (simp add: install_def map_set_fresh)
qed

section \<open>Well-formedness is kept by every operation\<close>

lemma recordHistory_fields [simp]:
  "heap (recordHistory act g now s) = heap s @ [obj_at (heap s) g]"
  "gadgets (recordHistory act g now s) = gadgets s"
  "version (recordHistory act g now s) = version s"
  "history (recordHistory act g now s) = history s @
     [[(''action'', Val (VStr act)), (''gadget'', Ref (length (heap s))),
       (''timestamp'', Val (VDate (Some now)))]]"
  by (simp_all add: recordHistory_def alloc_def)

lemma snapshot_refs_recordHistory [simp]:
  "snapshot_refs (recordHistory act g now s) = snapshot_refs s @ [length (heap s)]"
  by (simp add: snapshot_refs_def entry_refs_def)

lemma snapshot_refs_update [simp]:
  "snapshot_refs (s\<lparr>heap := h\<rparr>) = snapshot_refs s"
  "snapshot_refs (s\<lparr>gadgets := m\<rparr>) = snapshot_refs s"
  "snapshot_refs (write_prop a k v s) = snapshot_refs s"
  by (simp_all add: snapshot_refs_def)

lemma keyed_append: "keyed h m \<Longrightarrow> keyed (h @ h') m"
  by (auto simp: keyed_def list_all_iff obj_at_app)

lemma keyed_map_set:
  "keyed h m \<Longrightarrow> a < length h \<Longrightarrow> get (obj_at h a) ''id'' = k \<Longrightarrow> keyed h (map_set k a m)"
  by (induction m) (auto simp: keyed_def same_key_def)

lemma keyed_filter: "keyed h m \<Longrightarrow> keyed h (filter P m)"
  by (auto simp: keyed_def list_all_iff)

lemma keyed_write:
  "keyed h m \<Longrightarrow> k \<noteq> ''id'' \<Longrightarrow> keyed (h[a := assign k v (obj_at h a)]) m"
  by (auto simp: keyed_def list_all_iff obj_at_update get_assign)

lemma keyed_values_lt: "keyed h m \<Longrightarrow> a \<in> set (map_values m) \<Longrightarrow> a < length h"
  by (auto simp: keyed_def list_all_iff map_values_def)

lemma keys_distinct_map_set: "keys_distinct m \<Longrightarrow> keys_distinct (map_set k v m)"
proof (induction m)
  case Nil
  show ?case by simp
next
  case (Cons p m)
  show ?case
  proof (cases "same_key (fst p) k")
    case True
    with Cons.prems show ?thesis by simp
  next
    case False
    then have "\<not> same_key k (fst p)" by (auto simp: same_key_def)
    with False Cons show ?thesis by (simp add: map_get_map_set)
  qed
qed

lemma keys_distinct_filter: "keys_distinct m \<Longrightarrow> keys_distinct (filter P m)"
  by (induction m) (auto simp: map_get_None_iff)

lemma set_values_map_set: "set (map_values (map_set k v m)) \<subseteq> insert v (set (map_values m))"
  using set_map_set[of k v m] by (auto simp: map_values_def)

lemma set_values_delete: "set (map_values (map_delete k m)) \<subseteq> set (map_values m)"
  by (auto simp: map_values_def map_delete_def)

lemma wf_recordHistory:
  assumes "well_formed s"
  shows "well_formed (recordHistory act g now s)"
proof -
  from assms have k: "keyed (heap s) (gadgets s)" by (simp add: well_formed_def)
  have "length (heap s) \<notin> set (map_values (gadgets s))"
    using keyed_values_lt[OF k] by auto
  with assms show ?thesis
    by (auto simp: well_formed_def keyed_append list_all_iff)
qed

lemma wf_store_new:
  assumes w: "well_formed s" and i: "get ob ''id'' = k"
  shows "well_formed (s\<lparr>heap := heap s @ [ob], gadgets := map_set k (length (heap s)) (gadgets s)\<rparr>)"
    (is "well_formed ?s1")
proof -
  from w have k: "keyed (heap s) (gadgets s)" by (simp add: well_formed_def)
  have "keyed (heap ?s1) (gadgets ?s1)"
    using keyed_append[OF k, of "[ob]"] i
    by (auto intro!: keyed_map_set simp: obj_at_app obj_at_def)
  moreover have "keys_distinct (gadgets ?s1)"
    using w by (simp add: well_formed_def keys_distinct_map_set)
  moreover have "list_all (\<lambda>a. a < length (heap ?s1) \<and> a \<notin> set (map_values (gadgets ?s1)))
                   (snapshot_refs ?s1)"
    using w set_values_map_set[of k "length (heap s)" "gadgets s"]
    by (auto simp: well_formed_def list_all_iff)
  ultimately show ?thesis by (simp add: well_formed_def)
qed

lemma addGadget_valid:
  "\<not> (n = [] \<or> b = [] \<or> lt_zero p) \<Longrightarrow>
   addGadget n b p rnd added now s =
     (Return (length (heap s)),
      recordHistory ''ADD'' (length (heap s)) now
        (s\<lparr>heap := heap s @
             [[(''id'', VStr (generateId rnd)), (''name'', VStr n), (''brand'', VStr b),
               (''price'', VNum p), (''addedAt'', VDate (Some added))]],
           gadgets := map_set (VStr (generateId rnd)) (length (heap s)) (gadgets s)\<rparr>))"
  by (simp add: addGadget_def alloc_def Let_def)

lemma wf_addGadget: "well_formed s \<Longrightarrow> well_formed (snd (addGadget n b p rnd added now s))"
proof (cases "n = [] \<or> b = [] \<or> lt_zero p")
  case True
  then show "well_formed s \<Longrightarrow> ?thesis" by (simp add: addGadget_def)
next
  case False
  assume "well_formed s"
  then show ?thesis
    unfolding addGadget_valid[OF False]
    by (auto intro!: wf_recordHistory wf_store_new simp: get_def)
qed

lemma wf_write_prop: "well_formed s \<Longrightarrow> k \<noteq> ''id'' \<Longrightarrow> well_formed (write_prop a k v s)"
  by (auto simp: well_formed_def keyed_write list_all_iff)

lemma wf_heap_append: "well_formed s \<Longrightarrow> well_formed (s\<lparr>heap := heap s @ h'\<rparr>)"
  by (auto simp: well_formed_def keyed_append list_all_iff)

lemma wf_updateGadget:
  assumes w: "well_formed s"
  shows "well_formed (snd (updateGadget ident upd now s))"
proof (cases "map_get (VStr ident) (gadgets s)")
  case None
  with w show ?thesis by (simp add: updateGadget_def)
next
  case (Some g)
  define s1 where "s1 = (case name upd of None \<Rightarrow> s | Some n \<Rightarrow> write_prop g ''name'' (VStr n) s)"
  define s2 where "s2 = (case brand upd of None \<Rightarrow> s1 | Some b \<Rightarrow> write_prop g ''brand'' (VStr b) s1)"
  define s3 where "s3 = (case price upd of None \<Rightarrow> s2 | Some p \<Rightarrow> write_prop g ''price'' (VNum p) s2)"
  have w1: "well_formed s1" using w by (simp add: s1_def wf_write_prop split: option.splits)
  then have w2: "well_formed s2" by (simp add: s2_def wf_write_prop split: option.splits)
  then have w3: "well_formed s3" by (simp add: s3_def wf_write_prop split: option.splits)
  have "well_formed (recordHistory ''UPDATE'' (length (heap s3)) now
          (s3\<lparr>heap := heap s3 @ [obj_at (heap s3) g]\<rparr>))"
    by (intro wf_recordHistory wf_heap_append w3)
  then have w4: "well_formed (recordHistory ''UPDATE'' (length (heap s3)) now
          (s3\<lparr>heap := heap s3 @ [obj_at (heap s3) g]\<rparr>))" .
  have eq: "updateGadget ident upd now s =
          (if (case price upd of None \<Rightarrow> False | Some p \<Rightarrow> lt_zero p)
           then (Throw (Error ''Price cannot be negative.''), s2)
           else (Return (Some g), recordHistory ''UPDATE'' (length (heap s3)) now
                   (s3\<lparr>heap := heap s3 @ [obj_at (heap s3) g]\<rparr>)))"
    using Some unfolding updateGadget_def s1_def s2_def s3_def
    by (simp add: Let_def alloc_def)
  show ?thesis unfolding eq using w2 w4 by simp
qed

lemma wf_store_delete:
  assumes w: "well_formed s"
  shows "well_formed (s\<lparr>gadgets := map_delete k (gadgets s)\<rparr>)"
  using w set_values_delete[of k "gadgets s"]
  by (auto simp: well_formed_def list_all_iff map_delete_def keyed_filter keys_distinct_filter)

lemma wf_deleteGadget: "well_formed s \<Longrightarrow> well_formed (snd (deleteGadget ident now s))"
  by (auto simp: deleteGadget_def split: option.splits intro: wf_recordHistory wf_store_delete)

lemma wf_step: "well_formed s \<Longrightarrow> well_formed (step s x)"
  by (cases x) (simp_all add: wf_addGadget wf_updateGadget wf_deleteGadget)

lemma wf_run: "well_formed s \<Longrightarrow> well_formed (run ops s)"
  unfolding run_def by (induction ops arbitrary: s) (simp_all add: wf_step)

lemma wf_new_tracker_empty: "well_formed (new_tracker None h)"
  by (simp add: well_formed_def new_tracker_def keyed_def snapshot_refs_def)

section \<open>listGadgets\<close>

text \<open>
  Sorting with \<open>(a, b) => k(b) - k(a)\<close>: descending in \<open>k\<close>, a rearrangement, and stable.
\<close>

lemma sorted_insort_cmp:
  "sorted_wrt (\<lambda>a b. k b \<le> k a) ys \<Longrightarrow>
   sorted_wrt (\<lambda>a b. k b \<le> k a) (insort_cmp (\<lambda>a b. k b - k a) x ys)"
  by (induction ys) (auto simp: set_insort_cmp)

lemma sorted_array_sort:
  "sorted_wrt (\<lambda>a b. k b \<le> k a) (array_sort (\<lambda>a b. k b - k a) xs)"
  by (induction xs) (simp_all add: array_sort_def sorted_insort_cmp)

lemma mset_insort_cmp: "mset (insort_cmp c x ys) = add_mset x (mset ys)"
  by (induction ys) auto

lemma mset_array_sort: "mset (array_sort c xs) = mset xs"
  by (induction xs) (simp_all add: array_sort_def mset_insort_cmp)

lemma filter_insort_cmp:
  "sorted_wrt (\<lambda>a b. k b \<le> k a) ys \<Longrightarrow>
   filter (\<lambda>a. k a = t) (insort_cmp (\<lambda>a b. k b - k a) x ys) =
     (if k x = t then x # filter (\<lambda>a. k a = t) ys else filter (\<lambda>a. k a = t) ys)"
  by (induction ys) auto

lemma filter_array_sort:
  "filter (\<lambda>a. k a = t) (array_sort (\<lambda>a b. k b - k a) xs) = filter (\<lambda>a. k a = t) xs"
proof (induction xs)
  case Nil
  show ?case by (simp add: array_sort_def)
next
  case (Cons x xs)
  have "array_sort (\<lambda>a b. k b - k a) (x # xs) =
          insort_cmp (\<lambda>a b. k b - k a) x (array_sort (\<lambda>a b. k b - k a) xs)"
    by (simp add: array_sort_def)
  with Cons show ?case by (simp add: filter_insort_cmp[OF sorted_array_sort])
qed

subsection \<open>Valid dates are kept by add, update and delete\<close>

lemma time_of_assign:
  "k \<noteq> ''addedAt'' \<Longrightarrow> time_of (assign k v ob) = time_of ob"
  by (simp add: time_of_def get_assign)

lemma dated_recordHistory:
  "well_formed s \<Longrightarrow> dated s \<Longrightarrow> dated (recordHistory act g now s)"
  by (auto simp: dated_def list_all_iff obj_at_app well_formed_def dest: keyed_values_lt)

lemma dated_heap_append:
  "well_formed s \<Longrightarrow> dated s \<Longrightarrow> dated (s\<lparr>heap := heap s @ h'\<rparr>)"
  by (auto simp: dated_def list_all_iff obj_at_app well_formed_def dest: keyed_values_lt)

lemma dated_write_prop:
  "dated s \<Longrightarrow> k \<noteq> ''addedAt'' \<Longrightarrow> dated (write_prop a k v s)"
  by (auto simp: dated_def list_all_iff obj_at_update time_of_assign)

lemma dated_store_new:
  assumes w: "well_formed s" and d: "dated s" and t: "time_of ob \<noteq> None"
  shows "dated (s\<lparr>heap := heap s @ [ob], gadgets := map_set k (length (heap s)) (gadgets s)\<rparr>)"
    (is "dated ?s1")
proof -
  from w have k: "keyed (heap s) (gadgets s)" by (simp add: well_formed_def)
  have "time_of (obj_at (heap ?s1) a) \<noteq> None" if "a \<in> set (map_values (gadgets ?s1))" for a
  proof -
    from that set_values_map_set[of k "length (heap s)" "gadgets s"]
    have "a = length (heap s) \<or> a \<in> set (map_values (gadgets s))" by auto
    then show ?thesis
    proof
      assume "a = length (heap s)"
      with t show ?thesis by (simp add: obj_at_app obj_at_def)
    next
      assume a: "a \<in> set (map_values (gadgets s))"
      then have "a < length (heap s)" by (rule keyed_values_lt[OF k])
      with a d show ?thesis by (simp add: dated_def list_all_iff obj_at_app)
    qed
  qed
  then show ?thesis by (simp add: dated_def list_all_iff)
qed

lemma dated_addGadget:
  assumes w: "well_formed s" and d: "dated s"
  shows "dated (snd (addGadget n b p rnd added now s))"
proof (cases "n = [] \<or> b = [] \<or> lt_zero p")
  case True
  with d show ?thesis by (simp add: addGadget_def)
next
  case False
  show ?thesis
    unfolding addGadget_valid[OF False] snd_conv
    by (intro dated_recordHistory wf_store_new dated_store_new w d)
       (simp_all add: get_def time_of_def)
qed

lemma dated_updateGadget:
  assumes w: "well_formed s" and d: "dated s"
  shows "dated (snd (updateGadget ident upd now s))"
proof (cases "map_get (VStr ident) (gadgets s)")
  case None
  with d show ?thesis by (simp add: updateGadget_def)
next
  case (Some g)
  define s1 where "s1 = (case name upd of None \<Rightarrow> s | Some n \<Rightarrow> write_prop g ''name'' (VStr n) s)"
  define s2 where "s2 = (case brand upd of None \<Rightarrow> s1 | Some b \<Rightarrow> write_prop g ''brand'' (VStr b) s1)"
  define s3 where "s3 = (case price upd of None \<Rightarrow> s2 | Some p \<Rightarrow> write_prop g ''price'' (VNum p) s2)"
  have w1: "well_formed s1" using w by (simp add: s1_def wf_write_prop split: option.splits)
  then have w2: "well_formed s2" by (simp add: s2_def wf_write_prop split: option.splits)
  then have w3: "well_formed s3" by (simp add: s3_def wf_write_prop split: option.splits)
  have d1: "dated s1" using d by (simp add: s1_def dated_write_prop split: option.splits)
  then have d2: "dated s2" by (simp add: s2_def dated_write_prop split: option.splits)
  then have d3: "dated s3" by (simp add: s3_def dated_write_prop split: option.splits)
  have d4: "dated (recordHistory ''UPDATE'' (length (heap s3)) now
          (s3\<lparr>heap := heap s3 @ [obj_at (heap s3) g]\<rparr>))"
    by (intro dated_recordHistory wf_heap_append dated_heap_append w3 d3)
  have eq: "updateGadget ident upd now s =
          (if (case price upd of None \<Rightarrow> False | Some p \<Rightarrow> lt_zero p)
           then (Throw (Error ''Price cannot be negative.''), s2)
           else (Return (Some g), recordHistory ''UPDATE'' (length (heap s3)) now
                   (s3\<lparr>heap := heap s3 @ [obj_at (heap s3) g]\<rparr>)))"
    using Some unfolding updateGadget_def s1_def s2_def s3_def
    by (simp add: Let_def alloc_def)
  show ?thesis unfolding eq using d2 d4 by simp
qed

lemma dated_deleteGadget:
  assumes w: "well_formed s" and d: "dated s"
  shows "dated (snd (deleteGadget ident now s))"
proof (cases "map_get (VStr ident) (gadgets s)")
  case None
  with d show ?thesis by (simp add: deleteGadget_def)
next
  case (Some g)
  let ?s1 = "s\<lparr>gadgets := map_delete (VStr ident) (gadgets s)\<rparr>"
  have w1: "well_formed ?s1" by (rule wf_store_delete[OF w])
  have d1: "dated ?s1"
    using d set_values_delete[of "VStr ident" "gadgets s"] by (auto simp: dated_def list_all_iff)
  show ?thesis using Some dated_recordHistory[OF w1 d1] by (simp add: deleteGadget_def)
qed

lemma inv_step: "well_formed s \<and> dated s \<Longrightarrow> well_formed (step s x) \<and> dated (step s x)"
  by (cases x) (simp_all add: wf_addGadget wf_updateGadget wf_deleteGadget
      dated_addGadget dated_updateGadget dated_deleteGadget)

lemma inv_run: "well_formed s \<and> dated s \<Longrightarrow> well_formed (run ops s) \<and> dated (run ops s)"
  unfolding run_def
proof (induction ops arbitrary: s)
  case Nil
  then show ?case by simp
next
  case (Cons x ops)
  from inv_step[OF Cons.prems] show ?case by (simp add: Cons.IH)
qed

lemma dated_new_tracker_empty: "dated (new_tracker None h)"
  by (simp add: dated_def new_tracker_def map_values_def)

section \<open>importEncrypted: failures\<close>

lemma import_gadget_throw: "import_gadget E g s = (Throw e, s') \<Longrightarrow> e = TypeError \<and> s' = s"
  by (auto simp: import_gadget_def Let_def alloc_def split: option.splits)

lemma import_gadgets_throw: "import_gadgets E gs s = (Throw e, s') \<Longrightarrow> e = TypeError"
proof (induction gs arbitrary: s)
  case Nil
  then show ?case by simp
next
  case (Cons g gs)
  then show ?case
    by (auto split: prod.splits outcome.splits dest: import_gadget_throw)
qed

lemma import_entries_throw: "import_entries E hs = Throw e \<Longrightarrow> e = TypeError"
  by (induction hs) (auto simp: import_entry_def split: outcome.splits if_splits)

text \<open>
  An import that fails while decrypting, while parsing, or at the test of the two arrays
  leaves the state as it was. These are all the failures other than a \<open>TypeError\<close>.
\<close>

lemma importEncrypted_wrong_key:
  "aes_decrypt E (createKey E secret) (iv x) (data x) = None \<Longrightarrow>
   importEncrypted E x secret s = (Throw CipherError, s)"
  by (simp add: importEncrypted_def)

lemma importEncrypted_early_failure:
  assumes "importEncrypted E x secret s = (Throw e, s')" "e \<noteq> TypeError"
  shows "s' = s"
  using assms
  by (auto simp: importEncrypted_def split: option.splits if_splits prod.splits outcome.splits
      dest: import_gadgets_throw import_entries_throw)

text \<open>
  A payload that passes the test of the two arrays and has \<open>null\<close> among its gadgets: the map
  has been cleared when the \<open>TypeError\<close> is thrown.
\<close>

lemma importEncrypted_null_gadget:
  assumes "aes_decrypt E (createKey E secret) (iv x) (data x) = Some txt"
    and "json_parse E txt = Some (JObj [(''gadgets'', JArr [JNull]), (''history'', JArr [])])"
  shows "importEncrypted E x secret s = (Throw TypeError, s\<lparr>gadgets := []\<rparr>)"
  using assms by (simp add: importEncrypted_def import_gadget_def invalid_shape_def)

text \<open>
  Claim C2, on the example store: the export decrypts with the secret given, its payload is
  \<open>{"gadgets":[null],"history":[]}\<close>, the import throws a \<open>TypeError\<close>, and the map, which
  held two gadgets, is empty afterwards.
\<close>

theorem importEncrypted_failure_clears_map:
  "importEncrypted test_env
     \<lparr>export_version = VNum (Fin 1), iv = ''00'',
      data = (''sha256:k'', ''00'', JObj [(''gadgets'', JArr [JNull]), (''history'', JArr [])])\<rparr>
     ''k'' example_store
   = (Throw TypeError, example_store\<lparr>gadgets := []\<rparr>) \<and>
   gadgets example_store =
     [(VStr ''gadget-0a0a0a0a0a0a'', 0), (VStr ''gadget-0b0b0b0b0b0b'', 2)]"
  by (simp add: importEncrypted_def import_gadget_def invalid_shape_def test_env_def createKey_def
      example_store_eq)

section \<open>Every reachable store is well-formed\<close>

lemma keys_distinct_foldl_install:
  "keys_distinct m \<Longrightarrow> keys_distinct (foldl (install h) m gs)"
  by (induction gs arbitrary: m) (simp_all add: install_def keys_distinct_map_set)

lemma wf_new_tracker:
  assumes "case initialGadgets of None \<Rightarrow> True | Some gs \<Rightarrow> list_all (\<lambda>g. g < length h) gs"
  shows "well_formed (new_tracker initialGadgets h)"
proof (cases initialGadgets)
  case None
  then show ?thesis by (simp add: wf_new_tracker_empty)
next
  case (Some gs)
  with assms have lt: "\<forall>g\<in>set gs. g < length h" by (simp add: list_all_iff)
  have "keyed h (foldl (install h) [] gs)"
    using foldl_install_entries[of h "[]" gs] lt by (auto simp: keyed_def list_all_iff)
  then show ?thesis
    using Some
    by (simp add: well_formed_def new_tracker_def keys_distinct_foldl_install snapshot_refs_def)
qed

lemma import_gadget_return:
  "import_gadget E g s = (Return u, s') \<Longrightarrow>
   \<exists>ob. s' = s\<lparr>heap := heap s @ [ob],
                gadgets := map_set (get ob ''id'') (length (heap s)) (gadgets s)\<rparr>"
  by (auto simp: import_gadget_def Let_def alloc_def split: option.splits)

lemma wf_import_gadget:
  "well_formed s \<Longrightarrow> well_formed (snd (import_gadget E g s))"
proof (cases "import_gadget E g s")
  case (Pair r s')
  assume w: "well_formed s"
  show ?thesis
  proof (cases r)
    case (Return u)
    with Pair obtain ob where "s' = s\<lparr>heap := heap s @ [ob],
        gadgets := map_set (get ob ''id'') (length (heap s)) (gadgets s)\<rparr>"
      by (auto dest: import_gadget_return)
    with Pair w show ?thesis by (simp add: wf_store_new)
  next
    case (Throw e)
    with Pair w show ?thesis by (auto dest: import_gadget_throw)
  qed
qed

lemma wf_import_gadgets:
  "well_formed s \<Longrightarrow> well_formed (snd (import_gadgets E gs s))"
proof (induction gs arbitrary: s)
  case Nil
  then show ?case by simp
next
  case (Cons g gs)
  from wf_import_gadget[OF Cons.prems, of E g] Cons.IH
  show ?case by (auto split: prod.splits outcome.splits)
qed

lemma history_after_import_gadget [simp]:
  "history (snd (import_gadget E g s)) = history s"
  by (auto simp: import_gadget_def Let_def alloc_def split: option.splits)

lemma history_after_import_gadgets [simp]:
  "history (snd (import_gadgets E gs s)) = history s"
proof (induction gs arbitrary: s)
  case Nil
  show ?case by simp
next
  case (Cons g gs)
  show ?case
  proof (cases "import_gadget E g s")
    case (Pair r s1)
    have h1: "history s1 = history s"
      using history_after_import_gadget[of E g s] Pair by simp
    show ?thesis using Pair h1 Cons.IH[of s1] by (cases r) auto
  qed
qed

lemma entry_refs_assign_Val:
  "entry_refs e = [] \<Longrightarrow> entry_refs (assign k (Val v) e) = []"
  by (induction e) (auto simp: entry_refs_def)

lemma entry_refs_import_entry: "import_entry E hj = Return e \<Longrightarrow> entry_refs e = []"
proof -
  have "entry_refs (map (\<lambda>p. (fst p, Val (of_json (snd p)))) ps) = []" for ps
    by (induction ps) (simp_all add: entry_refs_def)
  then show "import_entry E hj = Return e \<Longrightarrow> entry_refs e = []"
    by (auto simp: import_entry_def entry_refs_assign_Val split: if_splits)
qed

lemma entry_refs_import_entries:
  "import_entries E hs = Return es \<Longrightarrow> concat (map entry_refs es) = []"
proof (induction hs arbitrary: es)
  case Nil
  then show ?case by simp
next
  case (Cons hj hs)
  then show ?case
    by (auto split: outcome.splits dest: entry_refs_import_entry)
qed

lemma wf_clear: "well_formed s \<Longrightarrow> well_formed (s\<lparr>gadgets := []\<rparr>)"
  by (simp add: well_formed_def keyed_def list_all_iff map_values_def)

lemma wf_new_history:
  "well_formed s \<Longrightarrow> concat (map entry_refs es) = [] \<Longrightarrow>
   well_formed (s\<lparr>history := es, version := v\<rparr>)"
  by (auto simp: well_formed_def snapshot_refs_def list_all_iff)

lemma wf_importEncrypted:
  assumes w: "well_formed s"
  shows "well_formed (snd (importEncrypted E x secret s))"
proof -
  have g: "well_formed (snd (import_gadgets E gs (s\<lparr>gadgets := []\<rparr>)))" for gs
    by (rule wf_import_gadgets[OF wf_clear[OF w]])
  show ?thesis
    using w g
    by (auto simp: importEncrypted_def split: option.splits prod.splits outcome.splits
        intro!: wf_new_history dest: entry_refs_import_entries)
       (metis snd_conv)+
qed

lemma wf_reachable: "reachable E s \<Longrightarrow> well_formed s"
  by (induction rule: reachable.induct)
     (simp_all add: wf_new_tracker wf_addGadget wf_updateGadget wf_deleteGadget wf_importEncrypted)

section \<open>History snapshots\<close>

text \<open>
  \<open>updateGadget\<close> writes to one object only, the one the map holds for the id; the heap
  grows by the copies made for the history, and the history by at most one entry.
\<close>

lemma updateGadget_heap_others:
  assumes "a < length (heap s)" "a \<notin> set (map_values (gadgets s))"
  shows "obj_at (heap (snd (updateGadget ident upd now s))) a = obj_at (heap s) a"
proof (cases "map_get (VStr ident) (gadgets s)")
  case None
  then show ?thesis by (simp add: updateGadget_def)
next
  case (Some g)
  then have "g \<in> set (map_values (gadgets s))"
    by (auto dest!: map_get_Some_mem simp: map_values_def intro: rev_image_eqI)
  with assms have "a \<noteq> g" by auto
  with Some assms(1) show ?thesis
    by (auto simp: updateGadget_def Let_def alloc_def obj_at_app obj_at_update
        split: option.splits)
qed

lemma updateGadget_history_prefix:
  "take (length (history s)) (history (snd (updateGadget ident upd now s))) = history s"
  by (auto simp: updateGadget_def Let_def alloc_def split: option.splits)

lemma resolve_cong:
  assumes "\<forall>a\<in>set (entry_refs e). obj_at h' a = obj_at h a"
  shows "resolve h' e = resolve h e"
  using assms
proof (induction e)
  case Nil
  show ?case by (simp add: resolve_def)
next
  case (Cons p e)
  obtain k sl where p: "p = (k, sl)" by (cases p)
  from Cons.prems have "resolve_slot h' sl = resolve_slot h sl"
    by (cases sl) (auto simp: entry_refs_def p)
  moreover from Cons have "resolve h' e = resolve h e" by (auto simp: entry_refs_def)
  ultimately show ?case by (simp add: resolve_def p)
qed

text \<open>
  Claim C9. In every reachable store no history entry refers to an object that the map
  holds: each snapshot is an object of its own. A call of \<open>updateGadget\<close>, whatever its
  arguments and outcome, leaves the entries recorded before it in place, and each of them
  reads as it did before, references followed.
\<close>

theorem history_snapshots_independent:
  "reachable E s \<Longrightarrow>
   (\<forall>a\<in>set (snapshot_refs s). a \<notin> set (map_values (gadgets s))) \<and>
   (case updateGadget ident upd now s of
      (r, s') \<Rightarrow>
        take (length (history s)) (history s') = history s \<and>
        map (resolve (heap s')) (history s) = map (resolve (heap s)) (history s))"
proof -
  assume "reachable E s"
  then have w: "well_formed s" by (rule wf_reachable)
  then have refs: "\<forall>a\<in>set (snapshot_refs s).
                     a < length (heap s) \<and> a \<notin> set (map_values (gadgets s))"
    by (simp add: well_formed_def list_all_iff)
  have "resolve (heap (snd (updateGadget ident upd now s))) e = resolve (heap s) e"
    if "e \<in> set (history s)" for e
  proof (rule resolve_cong, rule ballI)
    fix a assume "a \<in> set (entry_refs e)"
    with that have "a \<in> set (snapshot_refs s)" by (auto simp: snapshot_refs_def)
    with refs show "obj_at (heap (snd (updateGadget ident upd now s))) a = obj_at (heap s) a"
      by (simp add: updateGadget_heap_others)
  qed
  then have "map (resolve (heap (snd (updateGadget ident upd now s)))) (history s) =
             map (resolve (heap s)) (history s)"
    by simp
  with refs updateGadget_history_prefix[of s ident upd now]
  show ?thesis by (auto split: prod.splits)
qed

lemma reachable_example_store: "reachable E example_store"
  unfolding example_store_def
  by (intro reachable.by_addGadget reachable.by_constructor) simp

theorem history_snapshots_independent_witness:
  "reachable test_env example_store \<and>
   snapshot_refs example_store = [1, 3] \<and>
   map_values (gadgets example_store) = [0, 2] \<and>
   (case updateGadget ''gadget-0a0a0a0a0a0a''
           \<lparr>name = Some ''Renamed'', brand = None, price = Some (Fin 2399)\<rparr> 1006 example_store of
      (r, s') \<Rightarrow>
        r = Return (Some 0) \<and>
        get (obj_at (heap s') 0) ''name'' = VStr ''Renamed'' \<and>
        take (length (history example_store)) (history s') = history example_store \<and>
        map (resolve (heap s')) (history example_store) =
          map (resolve (heap example_store)) (history example_store))"
proof -
  have r: "reachable test_env example_store" by (rule reachable_example_store)
  have v: "snapshot_refs example_store = [1, 3]" "map_values (gadgets example_store) = [0, 2]"
    by (simp_all add: example_store_eq snapshot_refs_def entry_refs_def map_values_def)
  have u: "fst (updateGadget ''gadget-0a0a0a0a0a0a''
           \<lparr>name = Some ''Renamed'', brand = None, price = Some (Fin 2399)\<rparr> 1006 example_store)
           = Return (Some 0)"
    "get (obj_at (heap (snd (updateGadget ''gadget-0a0a0a0a0a0a''
           \<lparr>name = Some ''Renamed'', brand = None, price = Some (Fin 2399)\<rparr> 1006 example_store))) 0)
       ''name'' = VStr ''Renamed''"
    by (simp_all add: updateGadget_def example_store_eq same_key_def obj_at_def get_def
        write_prop_def Let_def alloc_def recordHistory_def)
  show ?thesis
    using history_snapshots_independent
      [OF r, of "''gadget-0a0a0a0a0a0a''"
         "\<lparr>name = Some ''Renamed'', brand = None, price = Some (Fin 2399)\<rparr>" 1006]
      r v u
    by (auto split: prod.splits)
qed

section \<open>Properties of the stored objects that the operations keep\<close>

lemma objs_all_heap_append:
  "well_formed s \<Longrightarrow> objs_all P s \<Longrightarrow> objs_all P (s\<lparr>heap := heap s @ h'\<rparr>)"
  by (auto simp: objs_all_def list_all_iff obj_at_app well_formed_def dest: keyed_values_lt)

lemma objs_all_recordHistory:
  "well_formed s \<Longrightarrow> objs_all P s \<Longrightarrow> objs_all P (recordHistory act g now s)"
  by (auto simp: objs_all_def list_all_iff obj_at_app well_formed_def dest: keyed_values_lt)

lemma objs_all_store_new:
  assumes w: "well_formed s" and d: "objs_all P s" and t: "P ob"
  shows "objs_all P (s\<lparr>heap := heap s @ [ob], gadgets := map_set k (length (heap s)) (gadgets s)\<rparr>)"
    (is "objs_all P ?s1")
proof -
  from w have k: "keyed (heap s) (gadgets s)" by (simp add: well_formed_def)
  have "P (obj_at (heap ?s1) a)" if "a \<in> set (map_values (gadgets ?s1))" for a
  proof -
    from that set_values_map_set[of k "length (heap s)" "gadgets s"]
    have "a = length (heap s) \<or> a \<in> set (map_values (gadgets s))" by auto
    then show ?thesis
    proof
      assume "a = length (heap s)"
      with t show ?thesis by (simp add: obj_at_app obj_at_def)
    next
      assume a: "a \<in> set (map_values (gadgets s))"
      then have "a < length (heap s)" by (rule keyed_values_lt[OF k])
      with a d show ?thesis by (simp add: objs_all_def list_all_iff obj_at_app)
    qed
  qed
  then show ?thesis by (simp add: objs_all_def list_all_iff)
qed

lemma objs_all_store_delete:
  "objs_all P s \<Longrightarrow> objs_all P (s\<lparr>gadgets := map_delete k (gadgets s)\<rparr>)"
  using set_values_delete[of k "gadgets s"] by (auto simp: objs_all_def list_all_iff)

lemma objs_all_write_prop:
  "objs_all P s \<Longrightarrow> (\<And>ob. P ob \<Longrightarrow> P (assign k v ob)) \<Longrightarrow> objs_all P (write_prop a k v s)"
  by (auto simp: objs_all_def list_all_iff obj_at_update)

lemma objs_all_addGadget:
  assumes w: "well_formed s" and d: "objs_all P s"
    and new: "\<not> (n = [] \<or> b = [] \<or> lt_zero p) \<Longrightarrow>
      P [(''id'', VStr (generateId rnd)), (''name'', VStr n), (''brand'', VStr b),
         (''price'', VNum p), (''addedAt'', VDate (Some added))]"
  shows "objs_all P (snd (addGadget n b p rnd added now s))"
proof (cases "n = [] \<or> b = [] \<or> lt_zero p")
  case True
  with d show ?thesis by (simp add: addGadget_def)
next
  case False
  show ?thesis
    unfolding addGadget_valid[OF False] snd_conv
    by (intro objs_all_recordHistory wf_store_new objs_all_store_new w d new[OF False])
       (simp add: get_def)
qed

lemma updateGadget_found:
  assumes "map_get (VStr ident) (gadgets s) = Some g"
  shows "snd (updateGadget ident upd now s) =
    (let s1 = (case name upd of None \<Rightarrow> s | Some n \<Rightarrow> write_prop g ''name'' (VStr n) s);
         s2 = (case brand upd of None \<Rightarrow> s1 | Some b \<Rightarrow> write_prop g ''brand'' (VStr b) s1);
         s3 = (case price upd of None \<Rightarrow> s2 | Some p \<Rightarrow> write_prop g ''price'' (VNum p) s2)
     in if (case price upd of None \<Rightarrow> False | Some p \<Rightarrow> lt_zero p) then s2
        else recordHistory ''UPDATE'' (length (heap s3)) now
               (s3\<lparr>heap := heap s3 @ [obj_at (heap s3) g]\<rparr>))"
  using assms by (simp add: updateGadget_def Let_def alloc_def)

lemma objs_all_updateGadget:
  assumes w: "well_formed s" and d: "objs_all P s"
    and pn: "\<And>n ob. name upd = Some n \<Longrightarrow> P ob \<Longrightarrow> P (assign ''name'' (VStr n) ob)"
    and pb: "\<And>b ob. brand upd = Some b \<Longrightarrow> P ob \<Longrightarrow> P (assign ''brand'' (VStr b) ob)"
    and pp: "\<And>p ob. price upd = Some p \<Longrightarrow> \<not> lt_zero p \<Longrightarrow> P ob \<Longrightarrow>
               P (assign ''price'' (VNum p) ob)"
  shows "objs_all P (snd (updateGadget ident upd now s))"
proof (cases "map_get (VStr ident) (gadgets s)")
  case None
  with d show ?thesis by (simp add: updateGadget_def)
next
  case (Some g)
  define s1 where "s1 = (case name upd of None \<Rightarrow> s | Some n \<Rightarrow> write_prop g ''name'' (VStr n) s)"
  define s2 where "s2 = (case brand upd of None \<Rightarrow> s1 | Some b \<Rightarrow> write_prop g ''brand'' (VStr b) s1)"
  define s3 where "s3 = (case price upd of None \<Rightarrow> s2 | Some p \<Rightarrow> write_prop g ''price'' (VNum p) s2)"
  have w1: "well_formed s1" using w by (simp add: s1_def wf_write_prop split: option.splits)
  then have w2: "well_formed s2" by (simp add: s2_def wf_write_prop split: option.splits)
  then have w3: "well_formed s3" by (simp add: s3_def wf_write_prop split: option.splits)
  have d1: "objs_all P s1"
    using d pn by (auto simp: s1_def split: option.splits intro: objs_all_write_prop)
  then have d2: "objs_all P s2"
    using pb by (auto simp: s2_def split: option.splits intro: objs_all_write_prop)
  have eq: "snd (updateGadget ident upd now s) =
     (if (case price upd of None \<Rightarrow> False | Some p \<Rightarrow> lt_zero p) then s2
      else recordHistory ''UPDATE'' (length (heap s3)) now
             (s3\<lparr>heap := heap s3 @ [obj_at (heap s3) g]\<rparr>))"
    unfolding updateGadget_found[OF Some] s1_def s2_def s3_def by (simp add: Let_def)
  show ?thesis
  proof (cases "case price upd of None \<Rightarrow> False | Some p \<Rightarrow> lt_zero p")
    case True
    with d2 show ?thesis by (simp add: eq)
  next
    case False
    then have d3: "objs_all P s3"
      using d2 pp by (auto simp: s3_def split: option.splits intro: objs_all_write_prop)
    have "objs_all P (recordHistory ''UPDATE'' (length (heap s3)) now
             (s3\<lparr>heap := heap s3 @ [obj_at (heap s3) g]\<rparr>))"
      by (intro objs_all_recordHistory wf_heap_append objs_all_heap_append w3 d3)
    with False show ?thesis by (simp add: eq)
  qed
qed

lemma objs_all_deleteGadget:
  assumes w: "well_formed s" and d: "objs_all P s"
  shows "objs_all P (snd (deleteGadget ident now s))"
proof (cases "map_get (VStr ident) (gadgets s)")
  case None
  with d show ?thesis by (simp add: deleteGadget_def)
next
  case (Some g)
  have "objs_all P (recordHistory ''DELETE'' g now
          (s\<lparr>gadgets := map_delete (VStr ident) (gadgets s)\<rparr>))"
    by (intro objs_all_recordHistory wf_store_delete objs_all_store_delete w d)
  with Some show ?thesis by (simp add: deleteGadget_def)
qed

section \<open>The invariant of the data model\<close>

lemma valid_gadget_new:
  "\<not> (n = [] \<or> b = [] \<or> lt_zero p) \<Longrightarrow> p \<noteq> NaN \<Longrightarrow>
   valid_gadget [(''id'', VStr i), (''name'', VStr n), (''brand'', VStr b),
                 (''price'', VNum p), (''addedAt'', VDate (Some t))]"
  by (cases p) (simp_all add: valid_gadget_def get_def)

lemma valid_gadget_name:
  "valid_gadget ob \<Longrightarrow> n \<noteq> [] \<Longrightarrow> valid_gadget (assign ''name'' (VStr n) ob)"
  by (simp add: valid_gadget_def get_assign)

lemma valid_gadget_brand:
  "valid_gadget ob \<Longrightarrow> b \<noteq> [] \<Longrightarrow> valid_gadget (assign ''brand'' (VStr b) ob)"
  by (simp add: valid_gadget_def get_assign)

lemma valid_gadget_price:
  "valid_gadget ob \<Longrightarrow> \<not> lt_zero p \<Longrightarrow> p \<noteq> NaN \<Longrightarrow> valid_gadget (assign ''price'' (VNum p) ob)"
  by (cases p) (simp_all add: valid_gadget_def get_assign)

lemma all_valid_step:
  assumes "well_formed s" "all_valid s" "sane x"
  shows "all_valid (step s x)"
proof (cases x)
  case (Add n b p rnd added now)
  with assms show ?thesis
    unfolding all_valid_def by (auto intro!: objs_all_addGadget valid_gadget_new)
next
  case (Update ident d now)
  with assms show ?thesis
    unfolding all_valid_def
    by (auto intro!: objs_all_updateGadget valid_gadget_name valid_gadget_brand valid_gadget_price)
next
  case (Delete ident now)
  with assms show ?thesis
    unfolding all_valid_def by (auto intro!: objs_all_deleteGadget)
qed

lemma all_valid_run:
  "well_formed s \<Longrightarrow> all_valid s \<Longrightarrow> list_all sane ops \<Longrightarrow> all_valid (run ops s)"
  unfolding run_def
proof (induction ops arbitrary: s)
  case Nil
  then show ?case by simp
next
  case (Cons x ops)
  then show ?case by (simp add: wf_step all_valid_step)
qed

lemma all_valid_new_tracker_empty: "all_valid (new_tracker None h)"
  by (simp add: all_valid_def objs_all_def new_tracker_def map_values_def)

text \<open>
  Claim C4, as stated, fails in four ways: the constructor installs the caller's objects as
  they are; \<open>updateGadget\<close> assigns an empty name; \<open>importEncrypted\<close> installs what the
  payload holds; \<open>addGadget\<close> accepts \<open>NaN\<close> as a price, since \<open>NaN < 0\<close> is false.
\<close>

theorem invariant_not_kept_counterexample:
  "reachable test_env (new_tracker (Some [0, 1]) caller_heap) \<and>
   \<not> all_valid (new_tracker (Some [0, 1]) caller_heap) \<and>
   reachable test_env
     (snd (updateGadget ''gadget-0a0a0a0a0a0a'' \<lparr>name = Some '''', brand = None, price = None\<rparr>
             1006 example_store)) \<and>
   \<not> all_valid
     (snd (updateGadget ''gadget-0a0a0a0a0a0a'' \<lparr>name = Some '''', brand = None, price = None\<rparr>
             1006 example_store)) \<and>
   reachable test_env (snd (importEncrypted test_env unvalidated_export ''k'' (new_tracker None []))) \<and>
   \<not> all_valid (snd (importEncrypted test_env unvalidated_export ''k'' (new_tracker None []))) \<and>
   reachable test_env
     (snd (addGadget ''Phone'' ''Acme'' NaN ''0c0c0c0c0c0c'' 1006 1007 (new_tracker None []))) \<and>
   \<not> all_valid
     (snd (addGadget ''Phone'' ''Acme'' NaN ''0c0c0c0c0c0c'' 1006 1007 (new_tracker None [])))"
proof -
  have c: "reachable test_env (new_tracker (Some [0, 1]) caller_heap)"
    by (rule reachable.by_constructor) (simp add: caller_heap_def)
  have e: "reachable test_env (new_tracker None [])"
    by (rule reachable.by_constructor) simp
  have 1: "\<not> all_valid (new_tracker (Some [0, 1]) caller_heap)"
    by (simp add: all_valid_def objs_all_def new_tracker_def install_def caller_heap_def
        obj_at_def get_def same_key_def map_values_def valid_gadget_def)
  have 2: "\<not> all_valid
     (snd (updateGadget ''gadget-0a0a0a0a0a0a'' \<lparr>name = Some '''', brand = None, price = None\<rparr>
             1006 example_store))"
    by (simp add: all_valid_def objs_all_def updateGadget_def example_store_eq same_key_def
        write_prop_def recordHistory_def alloc_def Let_def obj_at_def get_def map_values_def
        valid_gadget_def)
  have 3: "\<not> all_valid (snd (importEncrypted test_env unvalidated_export ''k'' (new_tracker None [])))"
    by (simp add: all_valid_def objs_all_def importEncrypted_def unvalidated_export_def
        test_env_def createKey_def invalid_shape_def import_gadget_def import_entry_def
        new_tracker_def alloc_def Let_def obj_at_def get_def map_values_def valid_gadget_def)
  have 4: "\<not> all_valid
     (snd (addGadget ''Phone'' ''Acme'' NaN ''0c0c0c0c0c0c'' 1006 1007 (new_tracker None [])))"
    by (simp add: all_valid_def objs_all_def addGadget_def new_tracker_def recordHistory_def
        alloc_def generateId_def Let_def obj_at_def get_def map_values_def valid_gadget_def)
  show ?thesis
    using c 1 2 3 4
      reachable.by_updateGadget[OF reachable_example_store]
      reachable.by_importEncrypted[OF e] reachable.by_addGadget[OF e]
    by blast
qed

section \<open>Typed stores\<close>

lemma typed_gadget_new:
  "date_ok E t \<Longrightarrow>
   typed_gadget E [(''id'', VStr i), (''name'', VStr n), (''brand'', VStr b),
                   (''price'', VNum (Fin r)), (''addedAt'', VDate (Some t))]"
  by (auto simp: typed_gadget_def)

lemma typed_gadget_name: "typed_gadget E ob \<Longrightarrow> typed_gadget E (assign ''name'' (VStr n) ob)"
  by (auto simp: typed_gadget_def)

lemma typed_gadget_brand: "typed_gadget E ob \<Longrightarrow> typed_gadget E (assign ''brand'' (VStr b) ob)"
  by (auto simp: typed_gadget_def)

lemma typed_gadget_price:
  "typed_gadget E ob \<Longrightarrow> typed_gadget E (assign ''price'' (VNum (Fin r)) ob)"
  by (auto simp: typed_gadget_def)

lemma entry_refs_typed: "typed_entry E h e \<Longrightarrow> \<exists>c. entry_refs e = [c]"
  by (auto simp: typed_entry_def entry_refs_def)

lemma typed_entry_cong:
  assumes "typed_entry E h e" "\<forall>c\<in>set (entry_refs e). obj_at h' c = obj_at h c"
  shows "typed_entry E h' e"
  using assms by (auto simp: typed_entry_def entry_refs_def)

text \<open>The history of a store stays typed when the heap changes outside the snapshots.\<close>

lemma typed_history_cong:
  assumes t: "list_all (typed_entry E (heap s)) (history s)"
    and same: "\<forall>c\<in>set (snapshot_refs s). obj_at h' c = obj_at (heap s) c"
  shows "list_all (typed_entry E h') (history s)"
  unfolding list_all_iff
proof
  fix e assume e: "e \<in> set (history s)"
  with t have "typed_entry E (heap s) e" by (simp add: list_all_iff)
  moreover from e same have "\<forall>c\<in>set (entry_refs e). obj_at h' c = obj_at (heap s) c"
    by (auto simp: snapshot_refs_def)
  ultimately show "typed_entry E h' e" by (rule typed_entry_cong)
qed

lemma snapshot_refs_lt:
  "well_formed s \<Longrightarrow> c \<in> set (snapshot_refs s) \<Longrightarrow>
   c < length (heap s) \<and> c \<notin> set (map_values (gadgets s))"
  by (simp add: well_formed_def list_all_iff)

lemma typed_store_heap_append:
  assumes "typed_store E s"
  shows "typed_store E (s\<lparr>heap := heap s @ h'\<rparr>)"
proof -
  from assms have w: "well_formed s" and o: "objs_all (typed_gadget E) s"
    and t: "list_all (typed_entry E (heap s)) (history s)"
    by (simp_all add: typed_store_def)
  have "list_all (typed_entry E (heap s @ h')) (history s)"
    by (rule typed_history_cong[OF t]) (auto simp: obj_at_app dest: snapshot_refs_lt[OF w])
  with w o show ?thesis
    by (simp add: typed_store_def wf_heap_append objs_all_heap_append)
qed

lemma typed_store_recordHistory:
  assumes ts: "typed_store E s" and g: "typed_gadget E (obj_at (heap s) g)" and d: "date_ok E now"
  shows "typed_store E (recordHistory act g now s)"
proof -
  from ts have w: "well_formed s" and o: "objs_all (typed_gadget E) s"
    and t: "list_all (typed_entry E (heap s)) (history s)"
    by (simp_all add: typed_store_def)
  have old: "list_all (typed_entry E (heap s @ [obj_at (heap s) g])) (history s)"
    by (rule typed_history_cong[OF t]) (auto simp: obj_at_app dest: snapshot_refs_lt[OF w])
  have new: "typed_entry E (heap s @ [obj_at (heap s) g])
               [(''action'', Val (VStr act)), (''gadget'', Ref (length (heap s))),
                (''timestamp'', Val (VDate (Some now)))]"
    using g d by (simp add: typed_entry_def obj_at_app obj_at_def)
  from w o old new show ?thesis
    by (simp add: typed_store_def wf_recordHistory objs_all_recordHistory)
qed

lemma typed_store_write_prop:
  assumes ts: "typed_store E s" and g: "g \<in> set (map_values (gadgets s))"
    and k: "k \<noteq> ''id''" and p: "\<And>ob. typed_gadget E ob \<Longrightarrow> typed_gadget E (assign k v ob)"
  shows "typed_store E (write_prop g k v s)"
proof -
  from ts have w: "well_formed s" and o: "objs_all (typed_gadget E) s"
    and t: "list_all (typed_entry E (heap s)) (history s)"
    by (simp_all add: typed_store_def)
  have "list_all (typed_entry E (heap (write_prop g k v s))) (history s)"
  proof (rule typed_history_cong[OF t], rule ballI)
    fix c assume "c \<in> set (snapshot_refs s)"
    with g snapshot_refs_lt[OF w] have "c \<noteq> g" by auto
    then show "obj_at (heap (write_prop g k v s)) c = obj_at (heap s) c"
      by (simp add: obj_at_update)
  qed
  with w o k p show ?thesis
    by (simp add: typed_store_def wf_write_prop objs_all_write_prop)
qed

lemma typed_store_live:
  "typed_store E s \<Longrightarrow> g \<in> set (map_values (gadgets s)) \<Longrightarrow> typed_gadget E (obj_at (heap s) g)"
  by (simp add: typed_store_def objs_all_def list_all_iff)

lemma map_get_value: "map_get k m = Some g \<Longrightarrow> g \<in> set (map_values m)"
  by (auto dest!: map_get_Some_mem simp: map_values_def intro: rev_image_eqI)

lemma typed_store_gadgets:
  "typed_store E s \<Longrightarrow> well_formed (s\<lparr>gadgets := m\<rparr>) \<Longrightarrow>
   objs_all (typed_gadget E) (s\<lparr>gadgets := m\<rparr>) \<Longrightarrow> typed_store E (s\<lparr>gadgets := m\<rparr>)"
  by (simp add: typed_store_def)

lemma typed_store_addGadget:
  assumes ts: "typed_store E s" and p: "portable E (Add n b p rnd added now)"
  shows "typed_store E (snd (addGadget n b p rnd added now s))"
proof (cases "n = [] \<or> b = [] \<or> lt_zero p")
  case True
  with ts show ?thesis by (simp add: addGadget_def)
next
  case False
  from p obtain r where r: "p = Fin r" by (cases p) auto
  from p have da: "date_ok E added" and dn: "date_ok E now" by simp_all
  let ?ob = "[(''id'', VStr (generateId rnd)), (''name'', VStr n), (''brand'', VStr b),
              (''price'', VNum p), (''addedAt'', VDate (Some added))]"
  let ?s1 = "s\<lparr>heap := heap s @ [?ob],
               gadgets := map_set (VStr (generateId rnd)) (length (heap s)) (gadgets s)\<rparr>"
  from ts have w: "well_formed s" and o: "objs_all (typed_gadget E) s"
    by (simp_all add: typed_store_def)
  have tob: "typed_gadget E ?ob" using da by (simp add: r typed_gadget_new)
  have w1: "well_formed ?s1" by (rule wf_store_new[OF w]) (simp add: get_def)
  have o1: "objs_all (typed_gadget E) ?s1" by (rule objs_all_store_new[OF w o tob])
  have "typed_store E (s\<lparr>heap := heap s @ [?ob]\<rparr>)" by (rule typed_store_heap_append[OF ts])
  then have "list_all (typed_entry E (heap ?s1)) (history ?s1)" by (simp add: typed_store_def)
  with w1 o1 have t1: "typed_store E ?s1" by (simp add: typed_store_def)
  have "typed_store E (recordHistory ''ADD'' (length (heap s)) now ?s1)"
    by (rule typed_store_recordHistory[OF t1 _ dn]) (use tob in \<open>simp add: obj_at_app obj_at_def\<close>)
  then show ?thesis by (simp add: addGadget_valid[OF False])
qed

lemma typed_store_updateGadget:
  assumes ts: "typed_store E s" and p: "portable E (Update ident upd now)"
  shows "typed_store E (snd (updateGadget ident upd now s))"
proof (cases "map_get (VStr ident) (gadgets s)")
  case None
  with ts show ?thesis by (simp add: updateGadget_def)
next
  case (Some g)
  then have g: "g \<in> set (map_values (gadgets s))" by (rule map_get_value)
  define s1 where "s1 = (case name upd of None \<Rightarrow> s | Some n \<Rightarrow> write_prop g ''name'' (VStr n) s)"
  define s2 where "s2 = (case brand upd of None \<Rightarrow> s1 | Some b \<Rightarrow> write_prop g ''brand'' (VStr b) s1)"
  define s3 where "s3 = (case price upd of None \<Rightarrow> s2 | Some p \<Rightarrow> write_prop g ''price'' (VNum p) s2)"
  have t1: "typed_store E s1" and g1: "g \<in> set (map_values (gadgets s1))"
    using ts g by (auto simp: s1_def split: option.splits
        intro!: typed_store_write_prop typed_gadget_name)
  then have t2: "typed_store E s2" and g2: "g \<in> set (map_values (gadgets s2))"
    by (auto simp: s2_def split: option.splits intro!: typed_store_write_prop typed_gadget_brand)
  have t3: "typed_store E s3" and g3: "g \<in> set (map_values (gadgets s3))"
  proof -
    show "g \<in> set (map_values (gadgets s3))" using g2 by (simp add: s3_def split: option.splits)
    show "typed_store E s3"
    proof (cases "price upd")
      case None
      with t2 show ?thesis by (simp add: s3_def)
    next
      case (Some q)
      with p obtain r where "q = Fin r" by (cases q) auto
      with Some t2 g2 show ?thesis
        by (auto simp: s3_def intro!: typed_store_write_prop typed_gadget_price)
    qed
  qed
  have tg: "typed_gadget E (obj_at (heap s3) g)" by (rule typed_store_live[OF t3 g3])
  have t4: "typed_store E (s3\<lparr>heap := heap s3 @ [obj_at (heap s3) g]\<rparr>)"
    by (rule typed_store_heap_append[OF t3])
  from p have dn: "date_ok E now" by simp
  have t5: "typed_store E (recordHistory ''UPDATE'' (length (heap s3)) now
              (s3\<lparr>heap := heap s3 @ [obj_at (heap s3) g]\<rparr>))"
    by (rule typed_store_recordHistory[OF t4 _ dn]) (use tg in \<open>simp add: obj_at_app obj_at_def\<close>)
  have eq: "snd (updateGadget ident upd now s) =
     (if (case price upd of None \<Rightarrow> False | Some p \<Rightarrow> lt_zero p) then s2
      else recordHistory ''UPDATE'' (length (heap s3)) now
             (s3\<lparr>heap := heap s3 @ [obj_at (heap s3) g]\<rparr>))"
    unfolding updateGadget_found[OF Some] s1_def s2_def s3_def by (simp add: Let_def)
  show ?thesis using t2 t5 by (simp add: eq)
qed

lemma typed_store_deleteGadget:
  assumes ts: "typed_store E s" and p: "portable E (Delete ident now)"
  shows "typed_store E (snd (deleteGadget ident now s))"
proof (cases "map_get (VStr ident) (gadgets s)")
  case None
  with ts show ?thesis by (simp add: deleteGadget_def)
next
  case (Some g)
  then have g: "g \<in> set (map_values (gadgets s))" by (rule map_get_value)
  from ts have w: "well_formed s" and o: "objs_all (typed_gadget E) s"
    by (simp_all add: typed_store_def)
  let ?s1 = "s\<lparr>gadgets := map_delete (VStr ident) (gadgets s)\<rparr>"
  have t1: "typed_store E ?s1"
    by (rule typed_store_gadgets[OF ts wf_store_delete[OF w] objs_all_store_delete[OF o]])
  from p have dn: "date_ok E now" by simp
  have "typed_store E (recordHistory ''DELETE'' g now ?s1)"
    by (rule typed_store_recordHistory[OF t1 _ dn]) (use typed_store_live[OF ts g] in simp)
  with Some show ?thesis by (simp add: deleteGadget_def)
qed

lemma typed_store_step: "typed_store E s \<Longrightarrow> portable E x \<Longrightarrow> typed_store E (step s x)"
  by (cases x) (simp_all only: step.simps typed_store_addGadget typed_store_updateGadget
      typed_store_deleteGadget)

lemma typed_store_run:
  "typed_store E s \<Longrightarrow> list_all (portable E) ops \<Longrightarrow> typed_store E (run ops s)"
  unfolding run_def
proof (induction ops arbitrary: s)
  case Nil
  then show ?case by simp
next
  case (Cons x ops)
  then show ?case by (simp add: typed_store_step)
qed

lemma typed_store_new_tracker: "typed_store E (new_tracker None h)"
  using wf_new_tracker_empty[of h]
  by (simp add: typed_store_def objs_all_def new_tracker_def map_values_def)

section \<open>Export followed by import\<close>

lemma map_get_append:
  "map_get k (m @ m') = (case map_get k m of None \<Rightarrow> map_get k m' | Some v \<Rightarrow> Some v)"
  by (induction m) auto

lemma keys_distinct_fst:
  "keys_distinct m \<Longrightarrow> \<forall>p\<in>set m. \<not> is_object (fst p) \<Longrightarrow> distinct (map fst m)"
proof (induction m)
  case Nil
  show ?case by simp
next
  case (Cons p m)
  from Cons.prems have "map_get (fst p) m = None" "\<not> is_object (fst p)" by simp_all
  then have "fst p \<notin> fst ` set m" by (auto simp: map_get_None_iff same_key_def)
  with Cons show ?case by simp
qed

lemma heap_tail:
  "map (obj_at (h @ obs)) [length h..<length h + length obs] = obs"
  by (rule nth_equalityI) (simp_all add: obj_at_app obj_at_def)

lemma typed_gadget_id: "typed_gadget E ob \<Longrightarrow> \<exists>i. get ob ''id'' = VStr i"
  by (auto simp: typed_gadget_def get_def)

text \<open>What \<open>importEncrypted\<close> makes of the JSON of a typed gadget is the gadget again.\<close>

lemma import_gadget_typed:
  assumes "typed_gadget E ob"
  shows "import_gadget E (obj_json (toISOString E) ob) s =
           (Return (), s\<lparr>heap := heap s @ [ob],
                         gadgets := map_set (get ob ''id'') (length (heap s)) (gadgets s)\<rparr>)"
  using assms
  by (auto simp: typed_gadget_def obj_json_def List.map_filter_simps import_gadget_def get_def
      alloc_def Let_def date_ok_def)

lemma import_gadgets_typed:
  assumes "\<forall>ob\<in>set obs. typed_gadget E ob"
    and "distinct (map (\<lambda>ob. get ob ''id'') obs)"
    and "\<forall>ob\<in>set obs. map_get (get ob ''id'') (gadgets s) = None"
  shows "import_gadgets E (map (obj_json (toISOString E)) obs) s =
           (Return (),
            s\<lparr>heap := heap s @ obs,
              gadgets := gadgets s @
                zip (map (\<lambda>ob. get ob ''id'') obs)
                    [length (heap s)..<length (heap s) + length obs]\<rparr>)"
  using assms
proof (induction obs arbitrary: s)
  case Nil
  show ?case by simp
next
  case (Cons ob obs)
  let ?k = "get ob ''id''"
  let ?s1 = "s\<lparr>heap := heap s @ [ob], gadgets := gadgets s @ [(?k, length (heap s))]\<rparr>"
  from Cons.prems have tob: "typed_gadget E ob" and none: "map_get ?k (gadgets s) = None"
    by simp_all
  from none have fresh: "map_set ?k (length (heap s)) (gadgets s) = gadgets s @ [(?k, length (heap s))]"
    by (intro map_set_fresh) (simp add: map_get_None_iff)
  have step: "import_gadget E (obj_json (toISOString E) ob) s = (Return (), ?s1)"
    by (simp add: import_gadget_typed[OF tob] fresh)
  have rest: "\<forall>ob'\<in>set obs. map_get (get ob' ''id'') (gadgets ?s1) = None"
  proof
    fix ob' assume o: "ob' \<in> set obs"
    from Cons.prems(2) have "?k \<notin> (\<lambda>ob. get ob ''id'') ` set obs" by simp
    with o have "get ob' ''id'' \<noteq> ?k" by (metis imageI)
    moreover from o Cons.prems(3) have "map_get (get ob' ''id'') (gadgets s) = None" by simp
    ultimately have "get ob' ''id'' \<noteq> ?k" "map_get (get ob' ''id'') (gadgets s) = None"
      by simp_all
    then show "map_get (get ob' ''id'') (gadgets ?s1) = None"
      by (simp add: map_get_append same_key_def)
  qed
  have "import_gadgets E (map (obj_json (toISOString E)) obs) ?s1 =
          (Return (),
           ?s1\<lparr>heap := heap ?s1 @ obs,
                gadgets := gadgets ?s1 @
                  zip (map (\<lambda>ob. get ob ''id'') obs)
                      [length (heap ?s1)..<length (heap ?s1) + length obs]\<rparr>)"
    using Cons.prems rest by (intro Cons.IH) simp_all
  then show ?case
    by (simp add: step upt_conv_Cons del: upt_Suc)
qed

lemma import_entry_typed:
  assumes "typed_entry E h e"
  shows "\<exists>e'. import_entry E (entry_json (toISOString E) h e) = Return e' \<and>
              entry_view h' e' = entry_view h e"
  using assms
  by (auto simp: typed_entry_def typed_gadget_def entry_json_def obj_json_def
      List.map_filter_simps import_entry_def date_ok_def entry_view_def gadget_fields_def get_def)

lemma import_entries_typed:
  assumes "list_all (typed_entry E h) es"
  shows "\<exists>es'. import_entries E (map (entry_json (toISOString E) h) es) = Return es' \<and>
               map (entry_view h') es' = map (entry_view h) es"
  using assms
proof (induction es)
  case Nil
  show ?case by simp
next
  case (Cons e es)
  then obtain es' where es': "import_entries E (map (entry_json (toISOString E) h) es) = Return es'"
    "map (entry_view h') es' = map (entry_view h) es"
    by auto
  from Cons.prems obtain e' where e': "import_entry E (entry_json (toISOString E) h e) = Return e'"
    "entry_view h' e' = entry_view h e"
    using import_entry_typed[of E h e h'] by auto
  from es' e' show ?case by simp
qed

lemma payload_props:
  "json_prop (payload fmt s) ''gadgets'' =
     VCompound (JArr (map (\<lambda>a. obj_json fmt (obj_at (heap s) a)) (map_values (gadgets s))))"
  "json_prop (payload fmt s) ''history'' = VCompound (JArr (map (entry_json fmt (heap s)) (history s)))"
  "truthy (of_json (payload fmt s))"
  by (simp_all add: payload_def List.map_filter_simps)

lemma typed_store_ids_distinct:
  assumes "typed_store E s"
  shows "distinct (map (\<lambda>ob. get ob ''id'') (map (obj_at (heap s)) (map_values (gadgets s))))"
proof -
  from assms have k: "keyed (heap s) (gadgets s)" and d: "keys_distinct (gadgets s)"
    and o: "objs_all (typed_gadget E) s"
    by (simp_all add: typed_store_def well_formed_def)
  have ids: "map (\<lambda>ob. get ob ''id'') (map (obj_at (heap s)) (map_values (gadgets s)))
               = map fst (gadgets s)"
    using k by (auto simp: keyed_def list_all_iff map_values_def)
  have "\<not> is_object (fst p)" if "p \<in> set (gadgets s)" for p
  proof -
    from that k have "fst p = get (obj_at (heap s) (snd p)) ''id''"
      by (auto simp: keyed_def list_all_iff)
    moreover from that o have "typed_gadget E (obj_at (heap s) (snd p))"
      by (auto simp: objs_all_def list_all_iff map_values_def)
    ultimately show ?thesis by (auto dest: typed_gadget_id)
  qed
  with d show ?thesis unfolding ids by (intro keys_distinct_fst) auto
qed

text \<open>
  The round trip for a typed store, on a platform whose cipher decrypts what it encrypted
  and whose parser reads back what was printed, for this payload.
\<close>

lemma roundtrip_typed:
  assumes ts: "typed_store E src"
    and cipher: "aes_decrypt E (createKey E secret) rnd_iv
                   (aes_encrypt E (createKey E secret) rnd_iv
                      (json_stringify E (payload (toISOString E) src)))
                 = Some (json_stringify E (payload (toISOString E) src))"
    and json: "json_parse E (json_stringify E (payload (toISOString E) src))
                 = Some (payload (toISOString E) src)"
  shows "\<exists>tgt'. importEncrypted E (exportEncrypted E secret rnd_iv src) secret tgt = (Return (), tgt')
            \<and> gadgets_view tgt' = gadgets_view src \<and> history_view tgt' = history_view src"
proof -
  let ?fmt = "toISOString E"
  let ?obs = "map (obj_at (heap src)) (map_values (gadgets src))"
  let ?n = "length (heap tgt)"
  let ?s2 = "tgt\<lparr>gadgets := [], heap := heap tgt @ ?obs,
                 gadgets := zip (map (\<lambda>ob. get ob ''id'') ?obs) [?n..<?n + length ?obs]\<rparr>"
  from ts have o: "objs_all (typed_gadget E) src"
    and h: "list_all (typed_entry E (heap src)) (history src)"
    by (simp_all add: typed_store_def)
  have typed: "\<forall>ob\<in>set ?obs. typed_gadget E ob"
    using o by (auto simp: objs_all_def list_all_iff)
  have g: "import_gadgets E (map (obj_json ?fmt) ?obs) (tgt\<lparr>gadgets := []\<rparr>) = (Return (), ?s2)"
    using import_gadgets_typed[OF typed typed_store_ids_distinct[OF ts], of "tgt\<lparr>gadgets := []\<rparr>"]
    by simp
  from import_entries_typed[OF h, of "heap ?s2"]
  obtain es' where es: "import_entries E (map (entry_json ?fmt (heap src)) (history src)) = Return es'"
    "map (entry_view (heap ?s2)) es' = map (entry_view (heap src)) (history src)"
    by auto
  let ?v = "if truthy (json_prop (payload ?fmt src) ''version'')
            then json_prop (payload ?fmt src) ''version'' else VNum (Fin 1)"
  let ?t = "?s2\<lparr>history := es', version := ?v\<rparr>"
  have garr: "map (\<lambda>a. obj_json ?fmt (obj_at (heap src) a)) (map_values (gadgets src))
                = map (obj_json ?fmt) ?obs"
    by simp
  have imp: "importEncrypted E (exportEncrypted E secret rnd_iv src) secret tgt = (Return (), ?t)"
    unfolding importEncrypted_def exportEncrypted_def
    by (simp add: cipher json invalid_shape_def payload_props garr g es del: map_map)
  have gv: "gadgets_view ?t = gadgets_view src"
  proof -
    have "map (\<lambda>a. gadget_fields (obj_at (heap tgt @ ?obs) a)) [?n..<?n + length ?obs]
            = map gadget_fields (map (obj_at (heap tgt @ ?obs)) [?n..<?n + length ?obs])"
      by simp
    also have "\<dots> = map gadget_fields ?obs" by (simp only: heap_tail)
    finally show ?thesis by (simp add: gadgets_view_def map_values_def)
  qed
  have hv: "history_view ?t = history_view src"
    using es(2) by (simp add: history_view_def)
  from imp gv hv show ?thesis by blast
qed

subsection \<open>The stand-in platform satisfies the assumptions\<close>

lemma undecimal_snoc: "undecimal (s @ [c]) = 10 * undecimal s + (of_char c - 48)"
  by simp

lemma undecimal_decimal: "undecimal (decimal n) = n"
proof (induction n rule: decimal.induct)
  case (1 n)
  show ?case
  proof (cases "n < 10")
    case True
    then show ?thesis by (subst decimal.simps) simp
  next
    case False
    have m: "(48 + n mod 10) mod 256 = 48 + n mod 10"
      by (rule mod_less) (simp add: less_le_trans[OF add_strict_left_mono[OF mod_less_divisor]])
    from False have "decimal n = decimal (n div 10) @ [char_of (48 + n mod 10)]"
      by (subst decimal.simps) simp
    with 1[OF False] m show ?thesis by (simp del: undecimal.simps add: undecimal_snoc)
  qed
qed

lemma date_ok_test_env: "date_ok test_env t"
  by (simp add: date_ok_def test_env_def test_iso_def undecimal_decimal del: undecimal.simps)

text \<open>
  Claim C1, as the code has it. Take the store reached from a new tracker by any calls of
  \<open>addGadget\<close>, \<open>updateGadget\<close> and \<open>deleteGadget\<close> whose prices are finite numbers (and
  whose clock readings the platform prints and reads back). On a platform whose cipher,
  with the key of the same secret and the same vector, decrypts the encrypted payload, and
  whose parser reads the printed payload back, importing the export into any tracker
  succeeds and gives a store with the same gadgets, in the same order, by \<open>id\<close>, \<open>name\<close>,
  \<open>brand\<close> and \<open>price\<close>, and the same history, by action, snapshot and timestamp.
\<close>

theorem export_import_roundtrip:
  assumes "list_all (portable E) ops"
    and "aes_decrypt E (createKey E secret) rnd_iv
           (aes_encrypt E (createKey E secret) rnd_iv
              (json_stringify E (payload (toISOString E) (run ops (new_tracker None h)))))
         = Some (json_stringify E (payload (toISOString E) (run ops (new_tracker None h))))"
    and "json_parse E (json_stringify E (payload (toISOString E) (run ops (new_tracker None h))))
         = Some (payload (toISOString E) (run ops (new_tracker None h)))"
  shows "\<exists>tgt'. importEncrypted E
                  (exportEncrypted E secret rnd_iv (run ops (new_tracker None h))) secret tgt
                = (Return (), tgt') \<and>
               gadgets_view tgt' = gadgets_view (run ops (new_tracker None h)) \<and>
               history_view tgt' = history_view (run ops (new_tracker None h))"
  by (rule roundtrip_typed[OF typed_store_run[OF typed_store_new_tracker assms(1)] assms(2,3)])

lemma example_run_eq:
  "run example_ops (new_tracker None []) =
     \<lparr>heap =
        [[(''id'', VStr ''gadget-0a0a0a0a0a0a''), (''name'', VStr ''MacBook Pro''),
          (''brand'', VStr ''Apple''), (''price'', VNum (Fin 2399)),
          (''addedAt'', VDate (Some 1000))],
         [(''id'', VStr ''gadget-0a0a0a0a0a0a''), (''name'', VStr ''MacBook Pro''),
          (''brand'', VStr ''Apple''), (''price'', VNum (Fin 2499)),
          (''addedAt'', VDate (Some 1000))],
         [(''id'', VStr ''gadget-0b0b0b0b0b0b''), (''name'', VStr ''Surface Pro 9''),
          (''brand'', VStr ''Microsoft''), (''price'', VNum (Fin 1599)),
          (''addedAt'', VDate (Some 1002))],
         [(''id'', VStr ''gadget-0b0b0b0b0b0b''), (''name'', VStr ''Surface Pro 9''),
          (''brand'', VStr ''Microsoft''), (''price'', VNum (Fin 1599)),
          (''addedAt'', VDate (Some 1002))],
         [(''id'', VStr ''gadget-0a0a0a0a0a0a''), (''name'', VStr ''MacBook Pro''),
          (''brand'', VStr ''Apple''), (''price'', VNum (Fin 2399)),
          (''addedAt'', VDate (Some 1000))],
         [(''id'', VStr ''gadget-0a0a0a0a0a0a''), (''name'', VStr ''MacBook Pro''),
          (''brand'', VStr ''Apple''), (''price'', VNum (Fin 2399)),
          (''addedAt'', VDate (Some 1000))]],
      gadgets = [(VStr ''gadget-0a0a0a0a0a0a'', 0), (VStr ''gadget-0b0b0b0b0b0b'', 2)],
      history =
        [[(''action'', Val (VStr ''ADD'')), (''gadget'', Ref 1),
          (''timestamp'', Val (VDate (Some 1001)))],
         [(''action'', Val (VStr ''ADD'')), (''gadget'', Ref 3),
          (''timestamp'', Val (VDate (Some 1003)))],
         [(''action'', Val (VStr ''UPDATE'')), (''gadget'', Ref 5),
          (''timestamp'', Val (VDate (Some 1004)))]],
      version = VNum (Fin 1)\<rparr>"
  by (simp add: example_ops_def run_def addGadget_def updateGadget_def new_tracker_def
      recordHistory_def alloc_def generateId_def same_key_def Let_def write_prop_def obj_at_def)

theorem export_import_roundtrip_witness:
  "list_all (portable test_env) example_ops \<and>
   fst (importEncrypted test_env
          (exportEncrypted test_env ''my-super-secret-key'' ''000102030405060708090a0b0c0d0e0f''
             (run example_ops (new_tracker None [])))
          ''my-super-secret-key'' (new_tracker None [])) = Return () \<and>
   gadgets_view (snd (importEncrypted test_env
          (exportEncrypted test_env ''my-super-secret-key'' ''000102030405060708090a0b0c0d0e0f''
             (run example_ops (new_tracker None [])))
          ''my-super-secret-key'' (new_tracker None []))) =
     [(VStr ''gadget-0a0a0a0a0a0a'', VStr ''MacBook Pro'', VStr ''Apple'', VNum (Fin 2399)),
      (VStr ''gadget-0b0b0b0b0b0b'', VStr ''Surface Pro 9'', VStr ''Microsoft'', VNum (Fin 1599))] \<and>
   history_view (snd (importEncrypted test_env
          (exportEncrypted test_env ''my-super-secret-key'' ''000102030405060708090a0b0c0d0e0f''
             (run example_ops (new_tracker None [])))
          ''my-super-secret-key'' (new_tracker None []))) =
     history_view (run example_ops (new_tracker None []))"
proof -
  have p: "list_all (portable test_env) example_ops"
    by (simp add: example_ops_def date_ok_test_env)
  have c: "aes_decrypt test_env (createKey test_env ''my-super-secret-key'')
             ''000102030405060708090a0b0c0d0e0f''
             (aes_encrypt test_env (createKey test_env ''my-super-secret-key'')
                ''000102030405060708090a0b0c0d0e0f'' m) = Some m" for m
    by (simp add: test_env_def)
  have j: "json_parse test_env (json_stringify test_env v) = Some v" for v
    by (simp add: test_env_def)
  have v: "gadgets_view (run example_ops (new_tracker None [])) =
     [(VStr ''gadget-0a0a0a0a0a0a'', VStr ''MacBook Pro'', VStr ''Apple'', VNum (Fin 2399)),
      (VStr ''gadget-0b0b0b0b0b0b'', VStr ''Surface Pro 9'', VStr ''Microsoft'', VNum (Fin 1599))]"
    by (simp add: example_run_eq gadgets_view_def gadget_fields_def map_values_def obj_at_def
        get_def)
  show ?thesis
    using export_import_roundtrip
      [OF p c j, of "[]" "new_tracker None []"] p v
    by auto
qed

text \<open>
  Claim C1, as stated, fails for a price that is not a finite number: \<open>addGadget\<close> accepts
  \<open>NaN\<close>, \<open>JSON.stringify\<close> prints it as \<open>null\<close>, and the imported gadget has the price
  \<open>null\<close>.
\<close>

theorem roundtrip_nan_counterexample:
  "fst (importEncrypted test_env (exportEncrypted test_env ''k'' ''00'' nan_store) ''k''
          (new_tracker None [])) = Return () \<and>
   gadgets_view nan_store =
     [(VStr ''gadget-0c0c0c0c0c0c'', VStr ''Phone'', VStr ''Acme'', VNum NaN)] \<and>
   gadgets_view (snd (importEncrypted test_env (exportEncrypted test_env ''k'' ''00'' nan_store) ''k''
          (new_tracker None []))) =
     [(VStr ''gadget-0c0c0c0c0c0c'', VStr ''Phone'', VStr ''Acme'', VNull)] \<and>
   gadgets_view (snd (importEncrypted test_env (exportEncrypted test_env ''k'' ''00'' nan_store) ''k''
          (new_tracker None []))) \<noteq> gadgets_view nan_store"
proof -
  have s: "nan_store =
     \<lparr>heap =
        [[(''id'', VStr ''gadget-0c0c0c0c0c0c''), (''name'', VStr ''Phone''),
          (''brand'', VStr ''Acme''), (''price'', VNum NaN), (''addedAt'', VDate (Some 1006))],
         [(''id'', VStr ''gadget-0c0c0c0c0c0c''), (''name'', VStr ''Phone''),
          (''brand'', VStr ''Acme''), (''price'', VNum NaN), (''addedAt'', VDate (Some 1006))]],
      gadgets = [(VStr ''gadget-0c0c0c0c0c0c'', 0)],
      history =
        [[(''action'', Val (VStr ''ADD'')), (''gadget'', Ref 1),
          (''timestamp'', Val (VDate (Some 1007)))]],
      version = VNum (Fin 1)\<rparr>"
    by (simp add: nan_store_def addGadget_def new_tracker_def recordHistory_def alloc_def
        generateId_def Let_def obj_at_def)
  have i: "importEncrypted test_env (exportEncrypted test_env ''k'' ''00'' nan_store) ''k''
          (new_tracker None []) =
     (Return (),
      \<lparr>heap =
         [[(''id'', VStr ''gadget-0c0c0c0c0c0c''), (''name'', VStr ''Phone''),
           (''brand'', VStr ''Acme''), (''price'', VNull),
           (''addedAt'', VDate (new_Date test_env (VStr (test_iso 1006))))]],
       gadgets = [(VStr ''gadget-0c0c0c0c0c0c'', 0)],
       history =
         [[(''action'', Val (VStr ''ADD'')),
           (''gadget'', Val (VCompound (JObj
              [(''id'', JStr ''gadget-0c0c0c0c0c0c''), (''name'', JStr ''Phone''),
               (''brand'', JStr ''Acme''), (''price'', JNull),
               (''addedAt'', JStr (test_iso 1006))]))),
           (''timestamp'', Val (VDate (new_Date test_env (VStr (test_iso 1007)))))]],
       version = VNum (Fin 1)\<rparr>)"
    by (simp add: s importEncrypted_def exportEncrypted_def test_env_def createKey_def payload_def
        List.map_filter_simps obj_json_def entry_json_def invalid_shape_def import_gadget_def
        import_entry_def new_tracker_def alloc_def Let_def obj_at_def get_def map_values_def
        same_key_def del: test_new_Date.simps)
  show ?thesis
    by (simp add: i) (simp add: s gadgets_view_def gadget_fields_def map_values_def obj_at_def get_def)
qed

section \<open>listGadgets: order\<close>

lemma insort_cmp_cong:
  "(\<And>y. y \<in> set ys \<Longrightarrow> c x y = c' x y) \<Longrightarrow> insort_cmp c x ys = insort_cmp c' x ys"
  by (induction ys) auto

lemma array_sort_cong:
  "(\<And>x y. x \<in> set xs \<Longrightarrow> y \<in> set xs \<Longrightarrow> c x y = c' x y) \<Longrightarrow>
   array_sort c xs = array_sort c' xs"
proof (induction xs)
  case Nil
  show ?case by (simp add: array_sort_def)
next
  case (Cons x xs)
  have r: "array_sort c xs = array_sort c' xs" by (rule Cons.IH) (simp add: Cons.prems)
  have "insort_cmp c x (array_sort c' xs) = insort_cmp c' x (array_sort c' xs)"
    by (rule insort_cmp_cong) (simp add: set_array_sort Cons.prems)
  with r show ?case by (simp add: array_sort_def)
qed

lemma time_of_Some: "time_of ob = Some t \<longleftrightarrow> get ob ''addedAt'' = VDate (Some t)"
  by (auto simp: time_of_def split: jsval.splits)

lemma time_of_Date: "time_of ob = Some t \<Longrightarrow> is_Date (get ob ''addedAt'')"
  by (auto simp: time_of_def split: jsval.splits)

lemma listGadgets_permutes:
  "listGadgets s = Return xs \<Longrightarrow> mset xs = mset (map_values (gadgets s))"
  by (auto simp: listGadgets_def Let_def mset_array_sort split: if_splits)

lemma listGadgets_dated:
  assumes "dated s"
  shows "listGadgets s =
           Return (array_sort (\<lambda>a b. the (time_of (obj_at (heap s) b)) - the (time_of (obj_at (heap s) a)))
                     (map_values (gadgets s)))"
proof -
  let ?vs = "map_values (gadgets s)"
  from assms have some: "\<forall>a\<in>set ?vs. time_of (obj_at (heap s) a) \<noteq> None"
    by (simp add: dated_def list_all_iff)
  then have "list_all (\<lambda>a. is_Date (get (obj_at (heap s) a) ''addedAt'')) ?vs"
    by (auto simp: list_all_iff dest: time_of_Date)
  moreover have "array_sort (compare_added (heap s)) ?vs =
      array_sort (\<lambda>a b. the (time_of (obj_at (heap s) b)) - the (time_of (obj_at (heap s) a))) ?vs"
  proof (rule array_sort_cong)
    fix x y assume "x \<in> set ?vs" "y \<in> set ?vs"
    with some obtain tx ty where "time_of (obj_at (heap s) x) = Some tx"
      "time_of (obj_at (heap s) y) = Some ty"
      by (meson option.exhaust)
    then show "compare_added (heap s) x y =
               the (time_of (obj_at (heap s) y)) - the (time_of (obj_at (heap s) x))"
      by (simp add: compare_added_def)
  qed
  ultimately show ?thesis by (simp add: listGadgets_def)
qed

lemma added_desc_dated:
  assumes "time_of (obj_at h a) \<noteq> None" "time_of (obj_at h b) \<noteq> None"
  shows "added_desc h a b \<longleftrightarrow> the (time_of (obj_at h b)) \<le> the (time_of (obj_at h a))"
  using assms by (auto simp: added_desc_def time_of_def split: jsval.splits option.splits)

lemma sorted_wrt_cong_set:
  "(\<And>x y. x \<in> set xs \<Longrightarrow> y \<in> set xs \<Longrightarrow> P x y = Q x y) \<Longrightarrow> sorted_wrt P xs = sorted_wrt Q xs"
  by (induction xs) auto

text \<open>
  Claim C7, as the code has it. Whenever \<open>listGadgets\<close> returns, the result holds exactly
  the references in the map. In every store in which each held gadget has a valid \<open>Date\<close>
  as \<open>addedAt\<close> it returns, the result is in descending order of \<open>addedAt\<close>, and gadgets with
  the same time keep the order they have in the map. Every store reached from a new empty
  tracker by calls of \<open>addGadget\<close>, \<open>updateGadget\<close> and \<open>deleteGadget\<close> is such a store.
\<close>

theorem listGadgets_sorted:
  "(\<forall>xs. listGadgets s = Return xs \<longrightarrow> mset xs = mset (map_values (gadgets s))) \<and>
   (dated s \<longrightarrow>
      (\<exists>xs. listGadgets s = Return xs \<and>
            sorted_wrt (added_desc (heap s)) xs \<and>
            (\<forall>t. filter (\<lambda>a. get (obj_at (heap s) a) ''addedAt'' = VDate (Some t)) xs =
                 filter (\<lambda>a. get (obj_at (heap s) a) ''addedAt'' = VDate (Some t))
                   (map_values (gadgets s))))) \<and>
   dated (run ops (new_tracker None h))"
proof (intro conjI allI impI)
  fix xs assume "listGadgets s = Return xs"
  then show "mset xs = mset (map_values (gadgets s))" by (rule listGadgets_permutes)
next
  assume d: "dated s"
  let ?k = "\<lambda>a. the (time_of (obj_at (heap s) a))"
  let ?vs = "map_values (gadgets s)"
  let ?xs = "array_sort (\<lambda>a b. ?k b - ?k a) ?vs"
  from d have some: "\<forall>a\<in>set ?vs. time_of (obj_at (heap s) a) \<noteq> None"
    by (simp add: dated_def list_all_iff)
  have l: "listGadgets s = Return ?xs" by (rule listGadgets_dated[OF d])
  have "sorted_wrt (\<lambda>a b. ?k b \<le> ?k a) ?xs" by (rule sorted_array_sort)
  moreover have "sorted_wrt (added_desc (heap s)) ?xs = sorted_wrt (\<lambda>a b. ?k b \<le> ?k a) ?xs"
    by (rule sorted_wrt_cong_set) (use some in \<open>simp add: set_array_sort added_desc_dated\<close>)
  ultimately have so: "sorted_wrt (added_desc (heap s)) ?xs" by simp
  have key: "(get (obj_at (heap s) a) ''addedAt'' = VDate (Some t)) = (?k a = t)"
    if "a \<in> set ?vs" for a t
    using that some by (auto simp: time_of_Some[symmetric])
  have st: "filter (\<lambda>a. get (obj_at (heap s) a) ''addedAt'' = VDate (Some t)) ?xs =
            filter (\<lambda>a. get (obj_at (heap s) a) ''addedAt'' = VDate (Some t)) ?vs" for t
  proof -
    have "filter (\<lambda>a. get (obj_at (heap s) a) ''addedAt'' = VDate (Some t)) ?xs =
          filter (\<lambda>a. ?k a = t) ?xs"
      by (rule filter_cong) (simp_all add: set_array_sort key)
    also have "\<dots> = filter (\<lambda>a. ?k a = t) ?vs" by (rule filter_array_sort)
    also have "\<dots> = filter (\<lambda>a. get (obj_at (heap s) a) ''addedAt'' = VDate (Some t)) ?vs"
      by (rule filter_cong) (simp_all add: key)
    finally show ?thesis .
  qed
  from l so st show "\<exists>xs. listGadgets s = Return xs \<and>
            sorted_wrt (added_desc (heap s)) xs \<and>
            (\<forall>t. filter (\<lambda>a. get (obj_at (heap s) a) ''addedAt'' = VDate (Some t)) xs =
                 filter (\<lambda>a. get (obj_at (heap s) a) ''addedAt'' = VDate (Some t))
                   (map_values (gadgets s)))"
    by blast
next
  show "dated (run ops (new_tracker None h))"
    using inv_run[of "new_tracker None h" ops] wf_new_tracker_empty dated_new_tracker_empty
    by simp
qed

theorem listGadgets_sorted_witness:
  "dated (run tie_ops (new_tracker None [])) \<and>
   map_values (gadgets (run tie_ops (new_tracker None []))) = [0, 2, 4] \<and>
   get (obj_at (heap (run tie_ops (new_tracker None []))) 0) ''addedAt'' = VDate (Some 5) \<and>
   get (obj_at (heap (run tie_ops (new_tracker None []))) 2) ''addedAt'' = VDate (Some 5) \<and>
   get (obj_at (heap (run tie_ops (new_tracker None []))) 4) ''addedAt'' = VDate (Some 9) \<and>
   listGadgets (run tie_ops (new_tracker None [])) = Return [4, 0, 2] \<and>
   sorted_wrt (added_desc (heap (run tie_ops (new_tracker None [])))) [4, 0, 2]"
proof -
  let ?s = "run tie_ops (new_tracker None [])"
  have v: "map_values (gadgets ?s) = [0, 2, 4]"
    "get (obj_at (heap ?s) 0) ''addedAt'' = VDate (Some 5)"
    "get (obj_at (heap ?s) 2) ''addedAt'' = VDate (Some 5)"
    "get (obj_at (heap ?s) 4) ''addedAt'' = VDate (Some 9)"
    by (simp_all add: tie_ops_def run_def addGadget_def new_tracker_def recordHistory_def
        alloc_def generateId_def same_key_def Let_def map_values_def obj_at_def get_def)
  have t: "time_of (obj_at (heap ?s) 0) = Some 5" "time_of (obj_at (heap ?s) 2) = Some 5"
    "time_of (obj_at (heap ?s) 4) = Some 9"
    by (simp_all add: time_of_Some v)
  have l: "listGadgets ?s = Return [4, 0, 2]"
    by (simp add: listGadgets_def v t array_sort_def compare_added_def)
  have d: "dated ?s" using listGadgets_sorted[of ?s tie_ops "[]"] by simp
  show ?thesis
    using listGadgets_sorted[of ?s tie_ops "[]"] d v l by auto
qed

text \<open>
  Claim C7, as stated, fails for a store that holds a gadget with an invalid date, which
  the constructor accepts: no order of such a store is a descending order of \<open>addedAt\<close>, and
  the list returned here has the gadget of time 1 before the gadget of time 5.
\<close>

theorem listGadgets_invalid_date_counterexample:
  "reachable test_env (new_tracker (Some [0, 1, 2]) undated_heap) \<and>
   listGadgets (new_tracker (Some [0, 1, 2]) undated_heap) = Return [0, 1, 2] \<and>
   get (obj_at (heap (new_tracker (Some [0, 1, 2]) undated_heap)) 0) ''addedAt'' = VDate (Some 1) \<and>
   get (obj_at (heap (new_tracker (Some [0, 1, 2]) undated_heap)) 1) ''addedAt'' = VDate None \<and>
   get (obj_at (heap (new_tracker (Some [0, 1, 2]) undated_heap)) 2) ''addedAt'' = VDate (Some 5) \<and>
   \<not> sorted_wrt (added_desc (heap (new_tracker (Some [0, 1, 2]) undated_heap))) [0, 1, 2]"
proof -
  let ?s = "new_tracker (Some [0, 1, 2]) undated_heap"
  have r: "reachable test_env ?s"
    by (rule reachable.by_constructor) (simp add: undated_heap_def)
  have h: "heap ?s = undated_heap" by (simp add: new_tracker_def)
  have g: "get (obj_at undated_heap 0) ''addedAt'' = VDate (Some 1)"
    "get (obj_at undated_heap (Suc 0)) ''addedAt'' = VDate None"
    "get (obj_at undated_heap 2) ''addedAt'' = VDate (Some 5)"
    by (simp_all add: undated_heap_def obj_at_def get_def)
  have v: "map_values (gadgets ?s) = [0, 1, 2]"
    by (simp add: new_tracker_def install_def undated_heap_def obj_at_def get_def same_key_def
        map_values_def)
  have l: "listGadgets ?s = Return [0, 1, 2]"
    unfolding listGadgets_def v h
    by (simp add: g array_sort_def compare_added_def time_of_def)
  have n: "\<not> sorted_wrt (added_desc undated_heap) [0, 1, 2]"
    by (simp add: added_desc_def g)
  show ?thesis unfolding h using r l n g by simp
qed

section \<open>deleteGadget\<close>

lemma map_delete_filter: "map_delete (VStr i) m = filter (\<lambda>p. fst p \<noteq> VStr i) m"
  unfolding map_delete_def by (rule filter_cong[OF refl]) (auto simp: same_key_def)

lemma map_get_delete_other: "k \<noteq> k' \<Longrightarrow> map_get k (map_delete k' m) = map_get k m"
  by (induction m) (auto simp: map_delete_def same_key_def)

lemma mset_values_delete:
  "keys_distinct m \<Longrightarrow> map_get k m = Some g \<Longrightarrow>
   mset (map_values (map_delete k m)) = mset (map_values m) - {#g#}"
proof (induction m)
  case Nil
  then show ?case by simp
next
  case (Cons p m)
  show ?case
  proof (cases "same_key (fst p) k")
    case True
    with Cons.prems have g: "snd p = g" and fk: "fst p = k" and none: "map_get k m = None"
      by (auto simp: same_key_def)
    from none have "map_delete k m = m"
      by (auto simp: map_delete_def map_get_None_iff filter_id_conv)
    with True g show ?thesis by (simp add: map_delete_def map_values_def)
  next
    case False
    with Cons.prems have "map_get k m = Some g" "keys_distinct m" by simp_all
    with Cons.IH have ih: "mset (map_values (map_delete k m)) = mset (map_values m) - {#g#}"
      by simp
    from \<open>map_get k m = Some g\<close> have "g \<in> set (map_values m)"
      by (rule map_get_value)
    then have "g \<in># mset (map_values m)" by simp
    with False ih show ?thesis
      by (simp add: map_delete_def map_values_def)
  qed
qed

lemma listGadgets_after_delete:
  assumes w: "well_formed s" and mg: "map_get k (gadgets s) = Some g"
    and l: "listGadgets s = Return ys"
  shows "\<exists>xs. listGadgets (recordHistory act g now (s\<lparr>gadgets := map_delete k (gadgets s)\<rparr>))
                = Return xs \<and> g \<notin> set xs \<and> mset xs = mset ys - {#g#}"
proof -
  let ?s' = "recordHistory act g now (s\<lparr>gadgets := map_delete k (gadgets s)\<rparr>)"
  let ?vs = "map_values (gadgets s)" and ?vs' = "map_values (map_delete k (gadgets s))"
  from w have kd: "keyed (heap s) (gadgets s)" and dist: "keys_distinct (gadgets s)"
    by (simp_all add: well_formed_def)
  have sub: "set ?vs' \<subseteq> set ?vs" by (rule set_values_delete)
  have len: "length ?vs' \<le> length ?vs" by (simp add: map_values_def map_delete_def)
  have same: "obj_at (heap ?s') a = obj_at (heap s) a" if "a \<in> set ?vs'" for a
    using that sub keyed_values_lt[OF kd, of a] by (auto simp: obj_at_app)
  have ms: "mset ?vs' = mset ?vs - {#g#}" by (rule mset_values_delete[OF dist mg])
  have gone: "g \<notin> set ?vs'" by (rule map_delete_value_gone[OF kd mg])
  from l have ok: "\<not> (2 \<le> length ?vs \<and>
      \<not> list_all (\<lambda>a. is_Date (get (obj_at (heap s) a) ''addedAt'')) ?vs)"
    and ys: "mset ys = mset ?vs"
    by (auto simp: listGadgets_def Let_def mset_array_sort split: if_splits)
  have ok': "\<not> (2 \<le> length ?vs' \<and>
      \<not> list_all (\<lambda>a. is_Date (get (obj_at (heap ?s') a) ''addedAt'')) ?vs')"
  proof
    assume a: "2 \<le> length ?vs' \<and>
      \<not> list_all (\<lambda>a. is_Date (get (obj_at (heap ?s') a) ''addedAt'')) ?vs'"
    with len ok have "list_all (\<lambda>a. is_Date (get (obj_at (heap s) a) ''addedAt'')) ?vs" by auto
    with sub same have "list_all (\<lambda>a. is_Date (get (obj_at (heap ?s') a) ''addedAt'')) ?vs'"
      by (auto simp: list_all_iff)
    with a show False by simp
  qed
  have "listGadgets ?s' = Return (array_sort (compare_added (heap ?s')) ?vs')"
    using ok' by (simp add: listGadgets_def Let_def)
  moreover have "g \<notin> set (array_sort (compare_added (heap ?s')) ?vs')"
    using gone by (simp add: set_array_sort)
  moreover have "mset (array_sort (compare_added (heap ?s')) ?vs') = mset ys - {#g#}"
    by (simp add: mset_array_sort ms ys)
  ultimately show ?thesis by blast
qed

text \<open>
  Claim C6. \<open>deleteGadget(id)\<close> returns \<open>false\<close> and changes nothing when the map has no
  entry for \<open>id\<close>. When it has one, in a well-formed store, the call returns \<open>true\<close> and
  removes that entry and no other: the map is the old one without the entry for \<open>id\<close>,
  every other key is bound as before, the values are the old ones less the deleted object,
  and where \<open>listGadgets\<close> returned a list before it returns one now, with the same
  elements less the deleted object. No object that was on the heap is changed, nor is the
  version. The history is the old one followed by exactly one \<open>DELETE\<close> entry, whose
  \<open>gadget\<close> is a new object with the properties the deleted one had.
\<close>

theorem deleteGadget_spec:
  "(map_get (VStr ident) (gadgets s) = None \<longrightarrow> deleteGadget ident now s = (False, s)) \<and>
   (\<forall>g. well_formed s \<and> map_get (VStr ident) (gadgets s) = Some g \<longrightarrow>
      (case deleteGadget ident now s of (r, s') \<Rightarrow>
         r = True \<and>
         gadgets s' = filter (\<lambda>p. fst p \<noteq> VStr ident) (gadgets s) \<and>
         map_get (VStr ident) (gadgets s') = None \<and>
         (\<forall>k. k \<noteq> VStr ident \<longrightarrow> map_get k (gadgets s') = map_get k (gadgets s)) \<and>
         g \<notin> set (map_values (gadgets s')) \<and>
         mset (map_values (gadgets s')) = mset (map_values (gadgets s)) - {#g#} \<and>
         (\<forall>ys. listGadgets s = Return ys \<longrightarrow>
            (\<exists>xs. listGadgets s' = Return xs \<and> g \<notin> set xs \<and> mset xs = mset ys - {#g#})) \<and>
         (\<forall>a. a < length (heap s) \<longrightarrow> obj_at (heap s') a = obj_at (heap s) a) \<and>
         version s' = version s \<and>
         history s' = history s @
           [[(''action'', Val (VStr ''DELETE'')), (''gadget'', Ref (length (heap s))),
             (''timestamp'', Val (VDate (Some now)))]] \<and>
         length (heap s) \<noteq> g \<and>
         obj_at (heap s') (length (heap s)) = obj_at (heap s) g))"
proof (intro conjI allI impI)
  show "deleteGadget ident now s = (False, s)" if "map_get (VStr ident) (gadgets s) = None"
    using that by (simp add: deleteGadget_def)
next
  fix g assume a: "well_formed s \<and> map_get (VStr ident) (gadgets s) = Some g"
  then have w: "well_formed s" and mg: "map_get (VStr ident) (gadgets s) = Some g" by simp_all
  from w have k: "keyed (heap s) (gadgets s)" and dist: "keys_distinct (gadgets s)"
    by (simp_all add: well_formed_def)
  let ?s' = "recordHistory ''DELETE'' g now (s\<lparr>gadgets := map_delete (VStr ident) (gadgets s)\<rparr>)"
  have eq: "deleteGadget ident now s = (True, ?s')" using mg by (simp add: deleteGadget_def)
  have lt: "g < length (heap s)" using keyed_mem[OF k map_get_Some_mem[OF mg]] by simp
  have 1: "gadgets ?s' = filter (\<lambda>p. fst p \<noteq> VStr ident) (gadgets s)"
    by (simp add: map_delete_filter)
  have 2: "map_get (VStr ident) (gadgets ?s') = None" by (simp add: map_get_delete)
  have 3: "\<forall>k. k \<noteq> VStr ident \<longrightarrow> map_get k (gadgets ?s') = map_get k (gadgets s)"
    by (simp add: map_get_delete_other)
  have 4: "g \<notin> set (map_values (gadgets ?s'))"
    using map_delete_value_gone[OF k mg] by simp
  have 5: "mset (map_values (gadgets ?s')) = mset (map_values (gadgets s)) - {#g#}"
    using mset_values_delete[OF dist mg] by simp
  have 6: "\<forall>ys. listGadgets s = Return ys \<longrightarrow>
            (\<exists>xs. listGadgets ?s' = Return xs \<and> g \<notin> set xs \<and> mset xs = mset ys - {#g#})"
    using listGadgets_after_delete[OF w mg] by blast
  have 7: "\<forall>a. a < length (heap s) \<longrightarrow> obj_at (heap ?s') a = obj_at (heap s) a"
    by (simp add: obj_at_app)
  have 8: "version ?s' = version s" by simp
  have 9: "history ?s' = history s @
           [[(''action'', Val (VStr ''DELETE'')), (''gadget'', Ref (length (heap s))),
             (''timestamp'', Val (VDate (Some now)))]]"
    by simp
  have 10: "length (heap s) \<noteq> g" using lt by simp
  have 11: "obj_at (heap ?s') (length (heap s)) = obj_at (heap s) g"
    by (simp add: obj_at_app obj_at_def)
  show "case deleteGadget ident now s of (r, s') \<Rightarrow>
         r = True \<and>
         gadgets s' = filter (\<lambda>p. fst p \<noteq> VStr ident) (gadgets s) \<and>
         map_get (VStr ident) (gadgets s') = None \<and>
         (\<forall>k. k \<noteq> VStr ident \<longrightarrow> map_get k (gadgets s') = map_get k (gadgets s)) \<and>
         g \<notin> set (map_values (gadgets s')) \<and>
         mset (map_values (gadgets s')) = mset (map_values (gadgets s)) - {#g#} \<and>
         (\<forall>ys. listGadgets s = Return ys \<longrightarrow>
            (\<exists>xs. listGadgets s' = Return xs \<and> g \<notin> set xs \<and> mset xs = mset ys - {#g#})) \<and>
         (\<forall>a. a < length (heap s) \<longrightarrow> obj_at (heap s') a = obj_at (heap s) a) \<and>
         version s' = version s \<and>
         history s' = history s @
           [[(''action'', Val (VStr ''DELETE'')), (''gadget'', Ref (length (heap s))),
             (''timestamp'', Val (VDate (Some now)))]] \<and>
         length (heap s) \<noteq> g \<and>
         obj_at (heap s') (length (heap s)) = obj_at (heap s) g"
    unfolding eq prod.case
    using 1 2 3 4 5 6 7 8 9 10 11 by blast
qed

lemma listGadgets_example_store: "listGadgets example_store = Return [2, 0]"
  unfolding listGadgets_def
  by (simp add: example_store_eq map_values_def array_sort_def compare_added_def time_of_def
      obj_at_def get_def)

theorem deleteGadget_spec_witness:
  "well_formed example_store \<and>
   map_get (VStr ''gadget-0a0a0a0a0a0a'') (gadgets example_store) = Some 0 \<and>
   gadgets example_store = [(VStr ''gadget-0a0a0a0a0a0a'', 0), (VStr ''gadget-0b0b0b0b0b0b'', 2)] \<and>
   listGadgets example_store = Return [2, 0] \<and>
   (case deleteGadget ''gadget-0a0a0a0a0a0a'' 1006 example_store of (r, s') \<Rightarrow>
      r = True \<and>
      gadgets s' = [(VStr ''gadget-0b0b0b0b0b0b'', 2)] \<and>
      map_get (VStr ''gadget-0a0a0a0a0a0a'') (gadgets s') = None \<and>
      map_get (VStr ''gadget-0b0b0b0b0b0b'') (gadgets s') = Some 2 \<and>
      listGadgets s' = Return [2] \<and>
      obj_at (heap s') 2 = obj_at (heap example_store) 2 \<and>
      history s' = history example_store @
        [[(''action'', Val (VStr ''DELETE'')), (''gadget'', Ref 4),
          (''timestamp'', Val (VDate (Some 1006)))]] \<and>
      obj_at (heap s') 4 = obj_at (heap example_store) 0) \<and>
   map_get (VStr ''gadget-none'') (gadgets example_store) = None \<and>
   deleteGadget ''gadget-none'' 1006 example_store = (False, example_store)"
proof -
  have m: "map_get (VStr ''gadget-0a0a0a0a0a0a'') (gadgets example_store) = Some 0"
    by (simp add: example_store_eq same_key_def)
  have n: "map_get (VStr ''gadget-none'') (gadgets example_store) = None"
    by (simp add: example_store_eq same_key_def)
  have l: "length (heap example_store) = 4" by (simp add: example_store_eq)
  have g: "gadgets example_store =
      [(VStr ''gadget-0a0a0a0a0a0a'', 0), (VStr ''gadget-0b0b0b0b0b0b'', 2)]"
    by (simp add: example_store_eq)
  have o: "map_get (VStr ''gadget-0b0b0b0b0b0b'') (gadgets example_store) = Some 2"
    by (simp add: example_store_eq same_key_def)
  obtain r s' where d: "deleteGadget ''gadget-0a0a0a0a0a0a'' 1006 example_store = (r, s')"
    by (cases "deleteGadget ''gadget-0a0a0a0a0a0a'' 1006 example_store")
  from deleteGadget_spec [of "''gadget-0a0a0a0a0a0a''" example_store 1006]
    well_formed_example_store m
  have c: "r = True"
    "gadgets s' = filter (\<lambda>p. fst p \<noteq> VStr ''gadget-0a0a0a0a0a0a'') (gadgets example_store)"
    "map_get (VStr ''gadget-0a0a0a0a0a0a'') (gadgets s') = None"
    "\<forall>k. k \<noteq> VStr ''gadget-0a0a0a0a0a0a'' \<longrightarrow>
        map_get k (gadgets s') = map_get k (gadgets example_store)"
    "\<forall>ys. listGadgets example_store = Return ys \<longrightarrow>
        (\<exists>xs. listGadgets s' = Return xs \<and> 0 \<notin> set xs \<and> mset xs = mset ys - {#0#})"
    "\<forall>a. a < length (heap example_store) \<longrightarrow> obj_at (heap s') a = obj_at (heap example_store) a"
    "history s' = history example_store @
           [[(''action'', Val (VStr ''DELETE'')), (''gadget'', Ref (length (heap example_store))),
             (''timestamp'', Val (VDate (Some 1006)))]]"
    "obj_at (heap s') (length (heap example_store)) = obj_at (heap example_store) 0"
    unfolding d prod.case by blast+
  from c(5) listGadgets_example_store obtain xs where
    xs: "listGadgets s' = Return xs" "mset xs = mset [2, 0] - {#0#}"
    by blast
  from xs(2) have "mset xs = {#2#}" by simp
  then have "xs = [2]" by (metis mset_single_iff_right)
  with xs have l2: "listGadgets s' = Return [2]" by simp
  have g2: "gadgets s' = [(VStr ''gadget-0b0b0b0b0b0b'', 2)]" using c(2) by (simp add: g)
  have o2: "map_get (VStr ''gadget-0b0b0b0b0b0b'') (gadgets s') = Some 2"
    using c(4) o by simp
  have h2: "obj_at (heap s') 2 = obj_at (heap example_store) 2" using c(6) l by simp
  show ?thesis
    unfolding d prod.case
    using well_formed_example_store m n g listGadgets_example_store c(1,3,7,8) l2 g2 o2 h2 l
      deleteGadget_spec [of "''gadget-none''" example_store 1006]
    by simp
qed

section \<open>The constructor: the map it builds\<close>

lemma map_set_replace:
  "distinct ks \<Longrightarrow> k0 \<in> set ks \<Longrightarrow> \<not> is_object k0 \<Longrightarrow>
   map_set k0 v (map (\<lambda>k. (k, f k)) ks) = map (\<lambda>k. (k, if k = k0 then v else f k)) ks"
proof (induction ks)
  case Nil
  then show ?case by simp
next
  case (Cons k ks)
  show ?case
  proof (cases "k = k0")
    case True
    with Cons.prems have "k0 \<notin> set ks" by simp
    then have "map (\<lambda>k. (k, if k = k0 then v else f k)) ks = map (\<lambda>k. (k, f k)) ks"
      by (intro map_cong) auto
    with True Cons.prems show ?thesis by (simp add: same_key_def)
  next
    case False
    with Cons show ?thesis by (simp add: same_key_def)
  qed
qed

lemma map_get_keyed_list:
  "k \<in> set ks \<Longrightarrow> \<not> is_object k \<Longrightarrow> map_get k (map (\<lambda>k. (k, f k)) ks) = Some (f k)"
  by (induction ks) (auto simp: same_key_def)

text \<open>
  The keys in order of first occurrence, each bound to the last supplied object with
  that id.
\<close>

lemma foldl_install_exact:
  assumes "\<forall>g\<in>set gl. \<not> is_object (get (obj_at h g) ''id'')"
  shows "foldl (install h) [] gl =
           map (\<lambda>k. (k, last (filter (\<lambda>g. get (obj_at h g) ''id'' = k) gl)))
               (rev (remdups (rev (map (\<lambda>g. get (obj_at h g) ''id'') gl))))"
  using assms
proof (induction gl rule: rev_induct)
  case Nil
  show ?case by simp
next
  case (snoc x gl)
  let ?idf = "\<lambda>g. get (obj_at h g) ''id''"
  let ?K = "rev (remdups (rev (map ?idf gl)))"
  let ?V = "\<lambda>k. last (filter (\<lambda>g. ?idf g = k) gl)"
  let ?V' = "\<lambda>k. last (filter (\<lambda>g. ?idf g = k) (gl @ [x]))"
  from snoc have ih: "foldl (install h) [] gl = map (\<lambda>k. (k, ?V k)) ?K" by simp
  from snoc.prems have prim: "\<not> is_object (?idf x)" by simp
  have v': "?V' k = (if k = ?idf x then x else ?V k)" for k by auto
  have dk: "distinct ?K" and sk: "set ?K = ?idf ` set gl" by simp_all
  show ?case
  proof (cases "?idf x \<in> ?idf ` set gl")
    case True
    then have k': "rev (remdups (rev (map ?idf (gl @ [x])))) = ?K" by simp
    have "foldl (install h) [] (gl @ [x]) = map_set (?idf x) x (map (\<lambda>k. (k, ?V k)) ?K)"
      by (simp add: install_def ih)
    also have "\<dots> = map (\<lambda>k. (k, if k = ?idf x then x else ?V k)) ?K"
      using True by (intro map_set_replace dk prim) (simp add: sk)
    also have "\<dots> = map (\<lambda>k. (k, ?V' k)) ?K" by (simp only: v')
    finally show ?thesis by (simp only: k')
  next
    case False
    then have k': "rev (remdups (rev (map ?idf (gl @ [x])))) = ?K @ [?idf x]" by simp
    have fresh: "\<forall>p\<in>set (map (\<lambda>k. (k, ?V k)) ?K). \<not> same_key (fst p) (?idf x)"
      using False by (force simp: same_key_def)
    have "foldl (install h) [] (gl @ [x]) = map_set (?idf x) x (map (\<lambda>k. (k, ?V k)) ?K)"
      by (simp add: install_def ih)
    also have "\<dots> = map (\<lambda>k. (k, ?V k)) ?K @ [(?idf x, x)]"
      by (rule map_set_fresh[OF fresh])
    also have "map (\<lambda>k. (k, ?V k)) ?K = map (\<lambda>k. (k, ?V' k)) ?K"
      using False by (intro map_cong refl) (auto simp: v' sk)
    finally show ?thesis by (simp only: k') (simp add: v')
  qed
qed

text \<open>
  Claim C10, as the code has it. The constructor never fails and looks at no property but
  \<open>id\<close>: nothing is validated. The store it returns has an empty history and version 1,
  and the heap is the caller's, untouched. Every entry of the map is one of the supplied
  references under the \<open>id\<close> of its object. When the ids are primitive values (strings, by
  the type \<open>Gadget\<close>), the map holds the supplied ids in order of first occurrence, each
  bound to the last supplied object with that id; so when the ids are pairwise different
  the map is exactly the supplied list, in order.
\<close>

theorem new_tracker_spec:
  "history (new_tracker initialGadgets h) = [] \<and>
   version (new_tracker initialGadgets h) = VNum (Fin 1) \<and>
   heap (new_tracker initialGadgets h) = h \<and>
   (initialGadgets = None \<longrightarrow> gadgets (new_tracker initialGadgets h) = []) \<and>
   (\<forall>gl. initialGadgets = Some gl \<longrightarrow>
      (\<forall>p\<in>set (gadgets (new_tracker initialGadgets h)).
         snd p \<in> set gl \<and> fst p = get (obj_at h (snd p)) ''id'') \<and>
      ((\<forall>g\<in>set gl. \<not> is_object (get (obj_at h g) ''id'')) \<longrightarrow>
         gadgets (new_tracker initialGadgets h) =
           map (\<lambda>k. (k, last (filter (\<lambda>g. get (obj_at h g) ''id'' = k) gl)))
               (rev (remdups (rev (map (\<lambda>g. get (obj_at h g) ''id'') gl)))) \<and>
         (\<forall>g\<in>set gl.
            map_get (get (obj_at h g) ''id'') (gadgets (new_tracker initialGadgets h)) =
              Some (last (filter (\<lambda>g'. get (obj_at h g') ''id'' = get (obj_at h g) ''id'') gl)))) \<and>
      (distinct (map (\<lambda>g. get (obj_at h g) ''id'') gl) \<longrightarrow>
         gadgets (new_tracker initialGadgets h) = map (\<lambda>g. (get (obj_at h g) ''id'', g)) gl))"
proof (intro conjI allI impI)
  fix gl assume s: "initialGadgets = Some gl"
  show "\<forall>p\<in>set (gadgets (new_tracker initialGadgets h)).
          snd p \<in> set gl \<and> fst p = get (obj_at h (snd p)) ''id''"
    using foldl_install_entries[of h "[]" gl] s by (auto simp: new_tracker_def)
  show "gadgets (new_tracker initialGadgets h) = map (\<lambda>g. (get (obj_at h g) ''id'', g)) gl"
    if "distinct (map (\<lambda>g. get (obj_at h g) ''id'') gl)"
    using foldl_install_distinct[OF that] s by (simp add: new_tracker_def)
  assume prim: "\<forall>g\<in>set gl. \<not> is_object (get (obj_at h g) ''id'')"
  show ex: "gadgets (new_tracker initialGadgets h) =
           map (\<lambda>k. (k, last (filter (\<lambda>g. get (obj_at h g) ''id'' = k) gl)))
               (rev (remdups (rev (map (\<lambda>g. get (obj_at h g) ''id'') gl))))"
    using foldl_install_exact[OF prim] s by (simp add: new_tracker_def)
  show "\<forall>g\<in>set gl.
            map_get (get (obj_at h g) ''id'') (gadgets (new_tracker initialGadgets h)) =
              Some (last (filter (\<lambda>g'. get (obj_at h g') ''id'' = get (obj_at h g) ''id'') gl))"
    unfolding ex using prim by (auto intro!: map_get_keyed_list)
qed (simp_all add: new_tracker_def)

theorem new_tracker_spec_witness:
  "\<not> is_object (get (obj_at twin_heap 0) ''id'') \<and>
   \<not> is_object (get (obj_at twin_heap 1) ''id'') \<and>
   \<not> is_object (get (obj_at twin_heap 2) ''id'') \<and>
   gadgets (new_tracker (Some [0, 1, 2]) twin_heap) = [(VStr ''g1'', 1), (VStr ''g2'', 2)] \<and>
   history (new_tracker (Some [0, 1, 2]) twin_heap) = [] \<and>
   version (new_tracker (Some [0, 1, 2]) twin_heap) = VNum (Fin 1) \<and>
   heap (new_tracker (Some [0, 1, 2]) twin_heap) = twin_heap \<and>
   distinct (map (\<lambda>g. get (obj_at caller_heap g) ''id'') [0, 1]) \<and>
   gadgets (new_tracker (Some [0, 1]) caller_heap) = [(VStr ''g1'', 0), (VStr ''g2'', 1)] \<and>
   get (obj_at (heap (new_tracker (Some [0, 1]) caller_heap)) 0) ''price'' = VNum (Fin (- 5)) \<and>
   get (obj_at (heap (new_tracker (Some [0, 1]) caller_heap)) 0) ''name'' = VStr ''''"
proof -
  have ids: "get (obj_at twin_heap 0) ''id'' = VStr ''g1''"
    "get (obj_at twin_heap (Suc 0)) ''id'' = VStr ''g1''"
    "get (obj_at twin_heap 2) ''id'' = VStr ''g2''"
    "get (obj_at caller_heap 0) ''id'' = VStr ''g1''"
    "get (obj_at caller_heap (Suc 0)) ''id'' = VStr ''g2''"
    "get (obj_at caller_heap 0) ''price'' = VNum (Fin (- 5))"
    "get (obj_at caller_heap 0) ''name'' = VStr ''''"
    by (simp_all add: twin_heap_def caller_heap_def obj_at_def get_def)
  show ?thesis
    using new_tracker_spec [of "Some [0, 1, 2]" twin_heap]
      new_tracker_spec [of "Some [0, 1]" caller_heap] ids
    by simp
qed

text \<open>
  Claim C10, as stated, fails when two supplied records have the same id: the first is not
  in the map, the second has taken its place.
\<close>

theorem new_tracker_repeated_id_counterexample:
  "get (obj_at twin_heap 0) ''id'' = VStr ''g1'' \<and>
   get (obj_at twin_heap 1) ''id'' = VStr ''g1'' \<and>
   gadgets (new_tracker (Some [0, 1, 2]) twin_heap) = [(VStr ''g1'', 1), (VStr ''g2'', 2)] \<and>
   0 \<notin> set (map_values (gadgets (new_tracker (Some [0, 1, 2]) twin_heap)))"
  by (simp add: new_tracker_def install_def twin_heap_def obj_at_def get_def same_key_def
      map_values_def)

section \<open>The invariant of the data model, from valid input\<close>

lemma valid_gadget_addedAt: "valid_gadget (assign ''addedAt'' v ob) = valid_gadget ob"
  by (simp add: valid_gadget_def get_assign)

lemma all_valid_import_gadget:
  assumes w: "well_formed s" and a: "all_valid s" and v: "valid_element g"
  shows "all_valid (snd (import_gadget E g s))"
proof (cases "element_props g")
  case None
  with a show ?thesis by (simp add: import_gadget_def)
next
  case (Some ps)
  let ?ob = "map (\<lambda>p. (fst p, of_json (snd p))) ps"
  let ?ob' = "assign ''addedAt'' (VDate (new_Date E (get ?ob ''addedAt''))) ?ob"
  from v Some have "valid_gadget ?ob'" by (simp add: valid_element_def valid_gadget_addedAt)
  then have "objs_all valid_gadget
      (s\<lparr>heap := heap s @ [?ob'], gadgets := map_set (get ?ob' ''id'') (length (heap s)) (gadgets s)\<rparr>)"
    using w a unfolding all_valid_def by (intro objs_all_store_new)
  with Some show ?thesis by (simp add: import_gadget_def Let_def alloc_def all_valid_def)
qed

lemma all_valid_import_gadgets:
  "well_formed s \<Longrightarrow> all_valid s \<Longrightarrow> list_all valid_element gs \<Longrightarrow>
   all_valid (snd (import_gadgets E gs s))"
proof (induction gs arbitrary: s)
  case Nil
  then show ?case by simp
next
  case (Cons g gs)
  obtain r s1 where r: "import_gadget E g s = (r, s1)" by (cases "import_gadget E g s")
  from Cons.prems have w1: "well_formed s1" and a1: "all_valid s1"
    using wf_import_gadget[of s E g] all_valid_import_gadget[of s g E] r by simp_all
  show ?case
  proof (cases r)
    case (Throw e)
    with r a1 show ?thesis by simp
  next
    case (Return u)
    with r Cons.IH[OF w1 a1] Cons.prems show ?thesis by simp
  qed
qed

lemma all_valid_fields [simp]:
  "all_valid (s\<lparr>history := es, version := v\<rparr>) = all_valid s"
  by (simp add: all_valid_def objs_all_def)

lemma all_valid_clear: "all_valid (s\<lparr>gadgets := []\<rparr>)"
  by (simp add: all_valid_def objs_all_def map_values_def)

lemma all_valid_importEncrypted:
  assumes w: "well_formed s" and a: "all_valid s"
    and v: "list_all valid_element (payload_gadgets E x secret)"
  shows "all_valid (snd (importEncrypted E x secret s))"
proof (cases "aes_decrypt E (createKey E secret) (iv x) (data x)")
  case None
  with a show ?thesis by (simp add: importEncrypted_def)
next
  case (Some decrypted)
  note dec = this
  show ?thesis
  proof (cases "json_parse E decrypted")
    case None
    with dec a show ?thesis by (simp add: importEncrypted_def)
  next
    case (Some parsed)
    from v dec Some have "list_all valid_element (items (json_prop parsed ''gadgets''))"
      by (simp add: payload_gadgets_def)
    then have g: "all_valid (snd (import_gadgets E (items (json_prop parsed ''gadgets''))
                                (s\<lparr>gadgets := []\<rparr>)))"
      by (intro all_valid_import_gadgets wf_clear[OF w] all_valid_clear)
    from dec Some a g show ?thesis
      by (auto simp: importEncrypted_def split: prod.splits outcome.splits)
  qed
qed

lemma all_valid_new_tracker:
  assumes "case initialGadgets of None \<Rightarrow> True
           | Some gs \<Rightarrow> list_all (\<lambda>g. g < length h \<and> valid_gadget (obj_at h g)) gs"
  shows "all_valid (new_tracker initialGadgets h)"
proof (cases initialGadgets)
  case None
  then show ?thesis by (simp add: all_valid_new_tracker_empty)
next
  case (Some gs)
  with assms have v: "\<forall>g\<in>set gs. valid_gadget (obj_at h g)" by (simp add: list_all_iff)
  have "set (map_values (foldl (install h) [] gs)) \<subseteq> set gs"
    using foldl_install_entries[of h "[]" gs] by (auto simp: map_values_def)
  with v Some show ?thesis
    by (auto simp: all_valid_def objs_all_def new_tracker_def list_all_iff)
qed

lemma valid_reachable_reachable: "valid_reachable E s \<Longrightarrow> reachable E s"
proof (induction rule: valid_reachable.induct)
  case (valid_constructor initialGadgets h)
  then show ?case
    by (intro reachable.by_constructor) (auto simp: list_all_iff split: option.splits)
qed (auto intro: reachable.intros)

text \<open>
  Claim C4, as the code has it. After any sequence of operations (the constructor,
  \<open>addGadget\<close>, \<open>updateGadget\<close>, \<open>deleteGadget\<close>, \<open>importEncrypted\<close>) every gadget the store
  holds has a non-empty name, a non-empty brand and a price that is at least zero,
  provided the input is valid where the code does not check it: the gadgets given to the
  constructor are valid, no call passes \<open>NaN\<close> as a price, \<open>updateGadget\<close> is given no empty
  name or brand, and every gadget object of an imported payload is valid.
\<close>

theorem valid_gadgets_kept:
  "valid_reachable E s \<Longrightarrow> all_valid s"
proof (induction rule: valid_reachable.induct)
  case (valid_constructor initialGadgets h)
  then show ?case by (rule all_valid_new_tracker)
next
  case (valid_addGadget s p n b rnd t now)
  then show ?case
    using all_valid_step[of s "Add n b p rnd t now"]
    by (simp add: wf_reachable[OF valid_reachable_reachable])
next
  case (valid_updateGadget s d ident now)
  then show ?case
    using all_valid_step[of s "Update ident d now"]
    by (simp add: wf_reachable[OF valid_reachable_reachable])
next
  case (valid_deleteGadget s ident now)
  then show ?case
    using all_valid_step[of s "Delete ident now"]
    by (simp add: wf_reachable[OF valid_reachable_reachable])
next
  case (valid_importEncrypted s x secret)
  then show ?case
    by (intro all_valid_importEncrypted wf_reachable[OF valid_reachable_reachable])
qed

lemma valid_reachable_valid_store: "valid_reachable E valid_store"
  unfolding valid_store_def
  by (intro valid_reachable.valid_updateGadget valid_reachable.valid_addGadget
      valid_reachable.valid_constructor)
     (simp_all add: caller_heap_def obj_at_def valid_gadget_def get_def)

theorem valid_gadgets_kept_witness:
  "valid_reachable test_env valid_store \<and>
   all_valid valid_store \<and>
   gadgets valid_store = [(VStr ''g2'', 1), (VStr ''gadget-0a0a0a0a0a0a'', 2)] \<and>
   get (obj_at (heap valid_store) 1) ''name'' = VStr ''Renamed'' \<and>
   valid_reachable test_env valid_imported_store \<and>
   all_valid valid_imported_store \<and>
   map (fst) (gadgets valid_imported_store) = [VStr ''g9'']"
proof -
  have r1: "valid_reachable test_env valid_store" by (rule valid_reachable_valid_store)
  have p: "payload_gadgets test_env valid_export ''k'' =
             [JObj [(''id'', JStr ''g9''), (''name'', JStr ''Tablet''),
                    (''brand'', JStr ''Acme''), (''price'', JNum 120),
                    (''addedAt'', JStr ''+9'')]]"
    by (simp add: payload_gadgets_def valid_export_def test_env_def createKey_def)
  have r2: "valid_reachable test_env valid_imported_store"
    unfolding valid_imported_store_def
    by (rule valid_reachable.valid_importEncrypted[OF r1])
       (simp add: p valid_element_def valid_gadget_def get_def)
  have s: "gadgets valid_store = [(VStr ''g2'', 1), (VStr ''gadget-0a0a0a0a0a0a'', 2)]"
    "get (obj_at (heap valid_store) 1) ''name'' = VStr ''Renamed''"
    by (simp_all add: valid_store_def updateGadget_def addGadget_def new_tracker_def
        install_def recordHistory_def alloc_def generateId_def same_key_def Let_def
        write_prop_def caller_heap_def obj_at_def get_def)
  have i: "map fst (gadgets valid_imported_store) = [VStr ''g9'']"
    by (simp add: valid_imported_store_def importEncrypted_def valid_export_def test_env_def
        createKey_def invalid_shape_def import_gadget_def import_entry_def alloc_def Let_def
        get_def split: prod.splits)
  show ?thesis
    using valid_gadgets_kept[OF r1] valid_gadgets_kept[OF r2] r1 r2 s i by simp
qed

end
